theory Spec2Isabelle
  imports Main "HOL-Library.Multiset" "HOL-Library.Word"
begin

section \<open>CSR graph topologies of katana\<close>

text \<open>
  The development follows \<^verbatim>\<open>libgalois/include/katana/GraphTopology.h\<close>,
  \<^verbatim>\<open>libgalois/src/GraphTopology.cpp\<close> and the topology functions of
  \<^verbatim>\<open>libgalois/src/PropertyGraph.cpp\<close>.

  Node ids (\<^verbatim>\<open>uint32_t\<close>), edge ids and property indices (\<^verbatim>\<open>uint64_t\<close>) are
  natural numbers. A \<^verbatim>\<open>NUMAArray\<close> is a list. A read or write of an array at an index
  that depends on the data is checked, and leaves the array's bounds as the failure
  \<open>OutOfBoundsAccess\<close>; an assertion that aborts the process is the failure
  \<open>FatalAssertion\<close>. A \<^verbatim>\<open>do_all\<close> loop runs its body on the indices in
  ascending order.
\<close>

subsection \<open>Failures and checked array accesses\<close>

datatype failure = InvalidArgument | FatalAssertion | OutOfBoundsAccess

definition at :: "'a list \<Rightarrow> nat \<Rightarrow> failure + 'a" where
  "at xs i = (if i < length xs then Inr (xs ! i) else Inl OutOfBoundsAccess)"

definition put :: "'a list \<Rightarrow> nat \<Rightarrow> 'a \<Rightarrow> failure + 'a list" where
  "put xs i v = (if i < length xs then Inr (xs[i := v]) else Inl OutOfBoundsAccess)"

fun for_each :: "('a \<Rightarrow> 's \<Rightarrow> failure + 's) \<Rightarrow> 'a list \<Rightarrow> 's \<Rightarrow> failure + 's" where
  "for_each f [] s = Inr s"
| "for_each f (x # xs) s =
     (case f x s of Inl err \<Rightarrow> Inl err | Inr s' \<Rightarrow> for_each f xs s')"

subsection \<open>GraphTopology\<close>

record GraphTopology =
  adj_indices :: "nat list"
  dests :: "nat list"

definition num_nodes :: "'a GraphTopology_scheme \<Rightarrow> nat" where
  "num_nodes g = length (adj_indices g)"

definition num_edges :: "'a GraphTopology_scheme \<Rightarrow> nat" where
  "num_edges g = length (dests g)"

text \<open>\<^verbatim>\<open>edges(node)\<close> is the half-open range from \<open>edge_begin\<close> to \<open>edge_end\<close>.\<close>

definition edge_begin :: "'a GraphTopology_scheme \<Rightarrow> nat \<Rightarrow> nat" where
  "edge_begin g node = (if node > 0 then adj_indices g ! (node - 1) else 0)"

definition edge_end :: "'a GraphTopology_scheme \<Rightarrow> nat \<Rightarrow> nat" where
  "edge_end g node = adj_indices g ! node"

definition edges :: "'a GraphTopology_scheme \<Rightarrow> nat \<Rightarrow> failure + (nat \<times> nat)" where
  "edges g node =
     (if node < num_nodes g then Inr (edge_begin g node, edge_end g node)
      else Inl OutOfBoundsAccess)"

definition edge_dest :: "'a GraphTopology_scheme \<Rightarrow> nat \<Rightarrow> failure + nat" where
  "edge_dest g edge_id = at (dests g) edge_id"

definition degree :: "'a GraphTopology_scheme \<Rightarrow> nat \<Rightarrow> nat" where
  "degree g node = edge_end g node - edge_begin g node"

text \<open>\<^verbatim>\<open>all_nodes()\<close> casts the node count to the 32-bit node type.\<close>

definition all_nodes :: "'a GraphTopology_scheme \<Rightarrow> nat list" where
  "all_nodes g = [0 ..< num_nodes g mod 2 ^ 32]"

definition all_edges :: "'a GraphTopology_scheme \<Rightarrow> nat list" where
  "all_edges g = [0 ..< num_edges g]"

definition Equals :: "'a GraphTopology_scheme \<Rightarrow> 'b GraphTopology_scheme \<Rightarrow> bool" where
  "Equals g that =
     (if num_nodes g \<noteq> num_nodes that then False
      else if num_edges g \<noteq> num_edges that then False
      else adj_indices g = adj_indices that \<and> dests g = dests that)"

subsection \<open>EdgeShuffleTopology\<close>

datatype TransposeKind = kNo | kYes

datatype EdgeSortKind = kAny | kSortedByDestID | kSortedByEdgeType | kSortedByNodeType

record EdgeShuffleTopology = GraphTopology +
  is_valid :: bool
  tpose_state :: TransposeKind
  edge_sort_state :: EdgeSortKind
  edge_prop_indices :: "nat list"

definition has_edges_sorted_by :: "'a EdgeShuffleTopology_scheme \<Rightarrow> EdgeSortKind \<Rightarrow> bool" where
  "has_edges_sorted_by t kind = (if kind = kAny then True else edge_sort_state t = kind)"

definition edge_property_index :: "'a EdgeShuffleTopology_scheme \<Rightarrow> nat \<Rightarrow> failure + nat" where
  "edge_property_index t eid = at (edge_prop_indices t) eid"

text \<open>
  \<^verbatim>\<open>internal::EdgeDestComparator\<close>: an edge is below a node when its destination is
  smaller, a node is below an edge when it is smaller than the edge's destination.
\<close>

definition comp_edge_node :: "'a GraphTopology_scheme \<Rightarrow> nat \<Rightarrow> nat \<Rightarrow> failure + bool" where
  "comp_edge_node g e n = (case edge_dest g e of Inl err \<Rightarrow> Inl err | Inr d \<Rightarrow> Inr (d < n))"

definition comp_node_edge :: "'a GraphTopology_scheme \<Rightarrow> nat \<Rightarrow> nat \<Rightarrow> failure + bool" where
  "comp_node_edge g n e = (case edge_dest g e of Inl err \<Rightarrow> Inl err | Inr d \<Rightarrow> Inr (n < d))"

text \<open>
  \<^verbatim>\<open>std::find_if\<close>, \<^verbatim>\<open>std::lower_bound\<close> and \<^verbatim>\<open>std::upper_bound\<close> over a range of
  counting iterators, the range given by its first element and its length.
\<close>

fun find_if :: "(nat \<Rightarrow> failure + bool) \<Rightarrow> nat \<Rightarrow> nat \<Rightarrow> failure + nat" where
  "find_if p first 0 = Inr first"
| "find_if p first (Suc n) =
     (case p first of
        Inl err \<Rightarrow> Inl err
      | Inr True \<Rightarrow> Inr first
      | Inr False \<Rightarrow> find_if p (first + 1) n)"

function lower_bound :: "(nat \<Rightarrow> failure + bool) \<Rightarrow> nat \<Rightarrow> nat \<Rightarrow> failure + nat" where
  "lower_bound lt first len =
     (if len > 0 then
        (case lt (first + len div 2) of
           Inl err \<Rightarrow> Inl err
         | Inr True \<Rightarrow> lower_bound lt (first + len div 2 + 1) (len - (len div 2 + 1))
         | Inr False \<Rightarrow> lower_bound lt first (len div 2))
      else Inr first)"
  by pat_completeness auto
termination
  by (relation "measure (\<lambda>(lt, first, len). len)") auto

function upper_bound :: "(nat \<Rightarrow> failure + bool) \<Rightarrow> nat \<Rightarrow> nat \<Rightarrow> failure + nat" where
  "upper_bound gt first len =
     (if len > 0 then
        (case gt (first + len div 2) of
           Inl err \<Rightarrow> Inl err
         | Inr False \<Rightarrow> upper_bound gt (first + len div 2 + 1) (len - (len div 2 + 1))
         | Inr True \<Rightarrow> upper_bound gt first (len div 2))
      else Inr first)"
  by pat_completeness auto
termination
  by (relation "measure (\<lambda>(gt, first, len). len)") auto

definition kBinarySearchThreshold :: nat where
  "kBinarySearchThreshold = 64"

text \<open>
  \<^verbatim>\<open>find_edge(src, dst)\<close> returns an edge iterator. The warning for a long unsorted
  range prints and changes nothing. After the binary search the code reads the
  destination of the edge under the iterator without comparing the iterator with the end
  of the range.
\<close>

definition find_edge :: "'a EdgeShuffleTopology_scheme \<Rightarrow> nat \<Rightarrow> nat \<Rightarrow> failure + nat" where
  "find_edge t src dst =
     (case edges t src of
        Inl err \<Rightarrow> Inl err
      | Inr (e_beg, e_end) \<Rightarrow>
          if e_end - e_beg \<le> kBinarySearchThreshold then
            find_if (\<lambda>e. case edge_dest t e of Inl err \<Rightarrow> Inl err | Inr d \<Rightarrow> Inr (d = dst))
              e_beg (e_end - e_beg)
          else
            (case lower_bound (\<lambda>e. comp_edge_node t e dst) e_beg (e_end - e_beg) of
               Inl err \<Rightarrow> Inl err
             | Inr iter \<Rightarrow>
                 (case edge_dest t iter of
                    Inl err \<Rightarrow> Inl err
                  | Inr d \<Rightarrow> Inr (if d = dst then iter else e_end))))"

text \<open>
  \<^verbatim>\<open>find_edges(src, dst)\<close> returns a range of edges. \<^verbatim>\<open>KATANA_LOG_VASSERT(cond, msg)\<close>
  aborts the process when \<open>cond\<close> is false; the condition the code passes is
  \<^verbatim>\<open>!has_edges_sorted_by(EdgeSortKind::kSortedByDestID)\<close>.
\<close>

definition find_edges ::
  "'a EdgeShuffleTopology_scheme \<Rightarrow> nat \<Rightarrow> nat \<Rightarrow> failure + (nat \<times> nat)" where
  "find_edges t src dst =
     (case edges t src of
        Inl err \<Rightarrow> Inl err
      | Inr (e_beg, e_end) \<Rightarrow>
          if e_beg = e_end then Inr (e_beg, e_end)
          else if \<not> (\<not> has_edges_sorted_by t kSortedByDestID) then Inl FatalAssertion
          else
            (case lower_bound (\<lambda>e. comp_edge_node t e dst) e_beg (e_end - e_beg) of
               Inl err \<Rightarrow> Inl err
             | Inr first_it \<Rightarrow>
                 (case upper_bound (\<lambda>e. comp_node_edge t dst e) e_beg (e_end - e_beg) of
                    Inl err \<Rightarrow> Inl err
                  | Inr last_it \<Rightarrow>
                      if first_it = e_end then Inr (e_end, e_end)
                      else
                        (case edge_dest t first_it of
                           Inl err \<Rightarrow> Inl err
                         | Inr d \<Rightarrow>
                             if d \<noteq> dst then Inr (e_end, e_end)
                             else Inr (first_it, last_it)))))"

subsection \<open>PropertyGraph\<close>

text \<open>
  \<^verbatim>\<open>EntityType\<close> is \<^verbatim>\<open>uint8_t\<close>. Of the property graph the topology functions use
  the topology and the accessors \<^verbatim>\<open>GetTypeOfEdge\<close> and \<^verbatim>\<open>GetTypeOfNode\<close> of the
  property store.
\<close>

type_synonym EntityType = "8 word"

record PropertyGraph =
  topology :: GraphTopology
  GetTypeOfEdge :: "nat \<Rightarrow> EntityType"
  GetTypeOfNode :: "nat \<Rightarrow> EntityType"

subsection \<open>The CSR invariants\<close>

text \<open>
  The adjacency indices are a non-decreasing prefix sum, every destination is a node,
  and the number of edges is the last adjacency index (0 without nodes). Node ids are
  32-bit and edge ids 64-bit values, so the number of nodes is below \<open>2 ^ 32\<close> (the
  range that \<^verbatim>\<open>all_nodes()\<close> keeps) and the number of edges below \<open>2 ^ 64\<close>.
\<close>

definition csr_invariants :: "'a GraphTopology_scheme \<Rightarrow> bool" where
  "csr_invariants g \<longleftrightarrow>
     sorted (adj_indices g)
     \<and> (\<forall>d \<in> set (dests g). d < num_nodes g)
     \<and> num_edges g = (if adj_indices g = [] then 0 else last (adj_indices g))
     \<and> num_nodes g < 2 ^ 32
     \<and> num_edges g < 2 ^ 64"

subsection \<open>Building a CSR topology\<close>

text \<open>
  \<^verbatim>\<open>std::partial_sum\<close> of an array into itself: the inclusive prefix sums.
\<close>

fun partial_sum_from :: "nat \<Rightarrow> nat list \<Rightarrow> nat list" where
  "partial_sum_from acc [] = []"
| "partial_sum_from acc (x # xs) = (acc + x) # partial_sum_from (acc + x) xs"

definition partial_sum :: "nat list \<Rightarrow> nat list" where
  "partial_sum xs = partial_sum_from 0 xs"

text \<open>
  \<^verbatim>\<open>__sync_fetch_and_add(&a[i], 1)\<close> returns the old value of the element and adds 1
  to it; \<^verbatim>\<open>__sync_add_and_fetch\<close>, whose result the code drops, changes the array in
  the same way.
\<close>

definition fetch_and_add :: "nat list \<Rightarrow> nat \<Rightarrow> failure + (nat \<times> nat list)" where
  "fetch_and_add xs i =
     (if i < length xs then Inr (xs ! i, xs[i := xs ! i + 1]) else Inl OutOfBoundsAccess)"

text \<open>
  The array \<^verbatim>\<open>out_dests_offset\<close>: element 0 is 0, element \<open>n\<close> is
  \<^verbatim>\<open>out_indices[n - 1]\<close>, the start of the edges of node \<open>n\<close>.
\<close>

definition start_offsets :: "nat list \<Rightarrow> nat list" where
  "start_offsets out_indices =
     0 # map (\<lambda>n. out_indices ! (n - 1)) [1 ..< length out_indices]"

text \<open>
  The two statements
  \<^verbatim>\<open>auto e_new = __sync_fetch_and_add(&(out_dests_offset[k]), 1); out_dests[e_new] = x;\<close>
  on the pair of the offsets and the destinations: the next free slot of node \<open>k\<close>
  receives \<open>x\<close>.
\<close>

definition place :: "nat \<Rightarrow> nat \<Rightarrow> nat list \<times> nat list \<Rightarrow> failure + nat list \<times> nat list" where
  "place k x st =
     (case st of (out_dests_offset, out_dests) \<Rightarrow>
        (case fetch_and_add out_dests_offset k of
           Inl err \<Rightarrow> Inl err
         | Inr (e_new, out_dests_offset') \<Rightarrow>
             (case put out_dests e_new x of
                Inl err \<Rightarrow> Inl err
              | Inr out_dests' \<Rightarrow> Inr (out_dests_offset', out_dests'))))"

text \<open>
  The edges of a topology as pairs of source and destination, node by node, and the
  destinations of the out-edges of one node.
\<close>

definition edge_list :: "'a GraphTopology_scheme \<Rightarrow> (nat \<times> nat) list" where
  "edge_list g =
     concat (map (\<lambda>n. map (\<lambda>e. (n, dests g ! e)) [edge_begin g n ..< edge_end g n])
               [0 ..< num_nodes g])"

text \<open>The pairs of a node and the id of one of its edges, node by node.\<close>

definition edge_ids :: "'a GraphTopology_scheme \<Rightarrow> (nat \<times> nat) list" where
  "edge_ids g =
     concat (map (\<lambda>n. map (Pair n) [edge_begin g n ..< edge_end g n]) [0 ..< num_nodes g])"

definition out_neighbors :: "'a GraphTopology_scheme \<Rightarrow> nat \<Rightarrow> nat list" where
  "out_neighbors g n = map (\<lambda>e. dests g ! e) [edge_begin g n ..< edge_end g n]"

text \<open>
  The values that a list of pairs of a node and a value holds for the node \<open>k\<close>, in
  the order of the list.
\<close>

definition bucket :: "nat \<Rightarrow> (nat \<times> nat) list \<Rightarrow> nat list" where
  "bucket k items = map snd (filter (\<lambda>it. fst it = k) items)"

subsection \<open>CreateTransposeGraphTopology\<close>

text \<open>
  The loop over all edges that counts, for every node, the edges that arrive at it.
\<close>

definition count_in_edges :: "'a GraphTopology_scheme \<Rightarrow> nat list \<Rightarrow> failure + nat list" where
  "count_in_edges topo out_indices =
     for_each
       (\<lambda>e out_indices.
          case edge_dest topo e of
            Inl err \<Rightarrow> Inl err
          | Inr dest \<Rightarrow>
              (case fetch_and_add out_indices dest of
                 Inl err \<Rightarrow> Inl err
               | Inr (old, out_indices') \<Rightarrow> Inr out_indices'))
       (all_edges topo) out_indices"

text \<open>
  The loop over the nodes and their edges that stores every edge \<open>src \<rightarrow> dest\<close> as the
  next out-edge \<open>dest \<rightarrow> src\<close> of \<open>dest\<close>.
\<close>

definition reverse_edges ::
  "'a GraphTopology_scheme \<Rightarrow> nat list \<times> nat list \<Rightarrow> failure + nat list \<times> nat list" where
  "reverse_edges topo st =
     for_each
       (\<lambda>src. for_each
                 (\<lambda>e st. case edge_dest topo e of
                             Inl err \<Rightarrow> Inl err
                           | Inr dest \<Rightarrow> place dest src st)
                 [edge_begin topo src ..< edge_end topo src])
       (all_nodes topo) st"

text \<open>
  The function returns a property graph around the new topology, and the empty property
  graph for a topology without nodes; the topology of the result stands for it. A fresh
  array holds zeros.
\<close>

definition CreateTransposeGraphTopology :: "'a GraphTopology_scheme \<Rightarrow> failure + GraphTopology" where
  "CreateTransposeGraphTopology topo =
     (if num_nodes topo = 0 then Inr \<lparr>adj_indices = [], dests = []\<rparr>
      else
        case count_in_edges topo (replicate (num_nodes topo) 0) of
          Inl err \<Rightarrow> Inl err
        | Inr counts \<Rightarrow>
            (let out_indices = partial_sum counts;
                 out_dests_offset = start_offsets out_indices
             in case reverse_edges topo (out_dests_offset, replicate (num_edges topo) 0) of
                  Inl err \<Rightarrow> Inl err
                | Inr (out_dests_offset', out_dests) \<Rightarrow>
                    Inr \<lparr>adj_indices = out_indices, dests = out_dests\<rparr>))"

subsection \<open>CreateSymmetricGraph\<close>

text \<open>
  The loop that adds to the out-degree of every node the number of edges that arrive at
  it from another node.
\<close>

definition count_reverse_edges ::
  "'a GraphTopology_scheme \<Rightarrow> nat list \<Rightarrow> failure + nat list" where
  "count_reverse_edges topo out_indices =
     for_each
       (\<lambda>n. for_each
               (\<lambda>e out_indices.
                  case edge_dest topo e of
                    Inl err \<Rightarrow> Inl err
                  | Inr dest \<Rightarrow>
                      if n \<noteq> dest then
                        (case fetch_and_add out_indices dest of
                           Inl err \<Rightarrow> Inl err
                         | Inr (old, out_indices') \<Rightarrow> Inr out_indices')
                      else Inr out_indices)
               [edge_begin topo n ..< edge_end topo n])
       (all_nodes topo) out_indices"

text \<open>
  The loop that stores every edge \<open>src \<rightarrow> dest\<close> as the next out-edge of \<open>src\<close> and,
  unless it is a self-loop, its reverse as the next out-edge of \<open>dest\<close>.
\<close>

definition add_edges_and_reverses ::
  "'a GraphTopology_scheme \<Rightarrow> nat list \<times> nat list \<Rightarrow> failure + nat list \<times> nat list" where
  "add_edges_and_reverses topo st =
     for_each
       (\<lambda>src. for_each
                 (\<lambda>e st.
                    case edge_dest topo e of
                      Inl err \<Rightarrow> Inl err
                    | Inr dest \<Rightarrow>
                        (case place src dest st of
                           Inl err \<Rightarrow> Inl err
                         | Inr st' \<Rightarrow> if dest \<noteq> src then place dest src st' else Inr st'))
                 [edge_begin topo src ..< edge_end topo src])
       (all_nodes topo) st"

text \<open>
  The function returns a property graph around the new topology, and the empty property
  graph for a graph without nodes; the topology of the result stands for it.
\<close>

definition CreateSymmetricGraph :: "'a PropertyGraph_scheme \<Rightarrow> failure + GraphTopology" where
  "CreateSymmetricGraph pg =
     (let topo = topology pg in
      if num_nodes topo = 0 then Inr \<lparr>adj_indices = [], dests = []\<rparr>
      else
        let out_indices =
              fold (\<lambda>n out_indices. out_indices[n := edge_end topo n - edge_begin topo n])
                (all_nodes topo) (replicate (num_nodes topo) 0)
        in case count_reverse_edges topo out_indices of
             Inl err \<Rightarrow> Inl err
           | Inr counts \<Rightarrow>
               (let out_indices = partial_sum counts;
                    num_nodes_symmetric = num_nodes topo;
                    num_edges_symmetric = out_indices ! (num_nodes_symmetric - 1);
                    out_dests_offset = start_offsets out_indices
                in case add_edges_and_reverses topo
                          (out_dests_offset, replicate num_edges_symmetric 0) of
                     Inl err \<Rightarrow> Inl err
                   | Inr (out_dests_offset', out_dests) \<Rightarrow>
                       Inr \<lparr>adj_indices = out_indices, dests = out_dests\<rparr>))"

text \<open>
  The pairs that the second loop places for a list of edges: every edge, followed by its
  reverse unless it is a self-loop.
\<close>

definition both_ways :: "(nat \<times> nat) list \<Rightarrow> (nat \<times> nat) list" where
  "both_ways el = concat (map (\<lambda>(s, d). if d \<noteq> s then [(s, d), (d, s)] else [(s, d)]) el)"

subsection \<open>The topology file\<close>

text \<open>
  A file buffer is a list of bytes. The 64-bit and 32-bit fields of the file are stored
  least significant byte first, as the machines the code runs on lay them out in the
  memory that \<^verbatim>\<open>FileView\<close> maps and \<^verbatim>\<open>FileFrame\<close> collects.
\<close>

type_synonym byte = "8 word"

primrec le_bytes :: "nat \<Rightarrow> nat \<Rightarrow> byte list" where
  "le_bytes 0 v = []"
| "le_bytes (Suc k) v = of_nat (v mod 256) # le_bytes k (v div 256)"

fun le_val :: "byte list \<Rightarrow> nat" where
  "le_val [] = 0"
| "le_val (b # bs) = unat b + 256 * le_val bs"

definition u64_at :: "byte list \<Rightarrow> nat \<Rightarrow> failure + nat" where
  "u64_at buf i =
     (if 8 * i + 8 \<le> length buf then Inr (le_val (take 8 (drop (8 * i) buf)))
      else Inl OutOfBoundsAccess)"

text \<open>
  The \<open>n\<close> 64-bit values from the 64-bit index \<open>start\<close> on, and the \<open>n\<close> 32-bit
  values from the byte offset \<open>off\<close> on; reading no value reads nothing.
\<close>

definition u64s_at :: "byte list \<Rightarrow> nat \<Rightarrow> nat \<Rightarrow> failure + nat list" where
  "u64s_at buf start n =
     (if n = 0 then Inr []
      else if 8 * (start + n) \<le> length buf then
        Inr (map (\<lambda>i. le_val (take 8 (drop (8 * (start + i)) buf))) [0 ..< n])
      else Inl OutOfBoundsAccess)"

definition u32s_at :: "byte list \<Rightarrow> nat \<Rightarrow> nat \<Rightarrow> failure + nat list" where
  "u32s_at buf off n =
     (if n = 0 then Inr []
      else if off + 4 * n \<le> length buf then
        Inr (map (\<lambda>i. le_val (take 4 (drop (off + 4 * i) buf))) [0 ..< n])
      else Inl OutOfBoundsAccess)"

text \<open>\<^verbatim>\<open>GetGraphSize\<close>, in 64-bit arithmetic.\<close>

definition GetGraphSize :: "nat \<Rightarrow> nat \<Rightarrow> nat" where
  "GetGraphSize n_nodes n_edges = ((4 + n_nodes) * 8 + n_edges * 4) mod 2 ^ 64"

text \<open>\<^verbatim>\<open>CheckTopology\<close>: two loops, each raising a flag at a bad entry.\<close>

definition CheckTopology :: "nat list \<Rightarrow> nat \<Rightarrow> nat list \<Rightarrow> nat \<Rightarrow> bool" where
  "CheckTopology out_indices n_nodes out_dests n_edges =
     (let has_bad_adj =
            fold (\<lambda>n bad. if out_indices ! n > n_edges then True else bad)
              [0 ..< n_nodes] False;
          has_bad_dest =
            fold (\<lambda>e bad. if out_dests ! e \<ge> n_nodes then True else bad)
              [0 ..< n_edges] False
      in \<not> has_bad_adj \<and> \<not> has_bad_dest)"

text \<open>
  \<^verbatim>\<open>MapTopology\<close>. The size of the file view is its number of bytes.
  \<^verbatim>\<open>KATANA_LOG_DEBUG_ASSERT\<close> is checked in builds with debug assertions and absent
  from the others; \<open>debug_assertions\<close> tells which build runs. The constructor of
  \<^verbatim>\<open>GraphTopology\<close> copies the two arrays out of the buffer.
\<close>

definition MapTopology :: "bool \<Rightarrow> byte list \<Rightarrow> failure + GraphTopology" where
  "MapTopology debug_assertions file_view =
     (if length file_view < 4 then Inl InvalidArgument
      else case u64_at file_view 0 of
        Inl err \<Rightarrow> Inl err
      | Inr version \<Rightarrow>
          if version \<noteq> 1 then Inl InvalidArgument
          else case u64_at file_view 2 of
            Inl err \<Rightarrow> Inl err
          | Inr n_nodes \<Rightarrow>
              (case u64_at file_view 3 of
                 Inl err \<Rightarrow> Inl err
               | Inr n_edges \<Rightarrow>
                   if length file_view < GetGraphSize n_nodes n_edges
                   then Inl InvalidArgument
                   else case u64s_at file_view 4 n_nodes of
                     Inl err \<Rightarrow> Inl err
                   | Inr out_indices \<Rightarrow>
                       (case u32s_at file_view (8 * (4 + n_nodes)) n_edges of
                          Inl err \<Rightarrow> Inl err
                        | Inr out_dests \<Rightarrow>
                            if debug_assertions
                               \<and> \<not> CheckTopology out_indices n_nodes out_dests n_edges
                            then Inl FatalAssertion
                            else Inr \<lparr>adj_indices = out_indices, dests = out_dests\<rparr>)))"

text \<open>
  \<^verbatim>\<open>WriteTopology\<close> appends to the frame the four header fields, the adjacency indices
  when there are nodes, and the destinations when there are edges. The frame is a buffer
  in memory; its writes succeed.
\<close>

definition WriteTopology :: "'a GraphTopology_scheme \<Rightarrow> byte list" where
  "WriteTopology topo =
     (let n_nodes = num_nodes topo;
          n_edges = num_edges topo;
          ff = concat (map (le_bytes 8) [1, 0, n_nodes, n_edges]);
          ff = (if n_nodes \<noteq> 0 then ff @ concat (map (le_bytes 8) (adj_indices topo))
                else ff);
          ff = (if n_edges \<noteq> 0 then ff @ concat (map (le_bytes 4) (dests topo))
                else ff)
      in ff)"

subsection \<open>SortNodesByDegree\<close>

text \<open>
  The library sort (\<^verbatim>\<open>katana::ParallelSTL::sort\<close>) is a parameter \<open>sort_fn\<close> of the
  functions that call it: it takes the comparator and the array and returns the sorted
  array. \<open>is_sorted_by cmp\<close> is what \<^verbatim>\<open>std::is_sorted\<close> tests for the comparator
  \<open>cmp\<close>: no element is before, by \<open>cmp\<close>, an earlier one. \<open>sort_by\<close> is the insertion sort,
  one such library sort.
\<close>

definition is_sorted_by :: "('a \<Rightarrow> 'a \<Rightarrow> bool) \<Rightarrow> 'a list \<Rightarrow> bool" where
  "is_sorted_by cmp xs = sorted_wrt (\<lambda>a b. \<not> cmp b a) xs"

fun insort_by :: "('a \<Rightarrow> 'a \<Rightarrow> bool) \<Rightarrow> 'a \<Rightarrow> 'a list \<Rightarrow> 'a list" where
  "insort_by cmp x [] = [x]"
| "insort_by cmp x (y # ys) = (if cmp x y then x # y # ys else y # insort_by cmp x ys)"

definition sort_by :: "('a \<Rightarrow> 'a \<Rightarrow> bool) \<Rightarrow> 'a list \<Rightarrow> 'a list" where
  "sort_by cmp xs = foldr (insort_by cmp) xs []"

text \<open>\<^verbatim>\<open>std::greater\<close> on pairs of a degree and a node.\<close>

definition greater_pair :: "nat \<times> nat \<Rightarrow> nat \<times> nat \<Rightarrow> bool" where
  "greater_pair a b \<longleftrightarrow> fst b < fst a \<or> (fst a = fst b \<and> snd b < snd a)"

text \<open>
  The loop that copies the sorted degrees and records for every old node its new id.
\<close>

definition degrees_and_mapping ::
  "nat \<Rightarrow> (nat \<times> nat) list \<Rightarrow> nat list \<times> nat list \<Rightarrow> failure + nat list \<times> nat list" where
  "degrees_and_mapping n_nodes dn_pairs st =
     for_each
       (\<lambda>index (new_prefix_sum, old_to_new_mapping).
          case at dn_pairs index of
            Inl err \<Rightarrow> Inl err
          | Inr pair \<Rightarrow>
              (case put new_prefix_sum index (fst pair) of
                 Inl err \<Rightarrow> Inl err
               | Inr new_prefix_sum' \<Rightarrow>
                   (case put old_to_new_mapping (snd pair) index of
                      Inl err \<Rightarrow> Inl err
                    | Inr old_to_new_mapping' \<Rightarrow> Inr (new_prefix_sum', old_to_new_mapping'))))
       [0 ..< n_nodes] st"

text \<open>
  The loop that writes the edges of every old node, with renamed destinations, from the
  start of the edges of its new id on: \<open>reindex_edge\<close> is the body of the loop over
  the edges of a node, \<open>reindex_node\<close> the body of the loop over the nodes. The
  assertion after the edges of a node is a debug assertion.
\<close>

definition reindex_edge ::
  "'a GraphTopology_scheme \<Rightarrow> nat list \<Rightarrow> nat \<Rightarrow> nat \<times> nat list \<Rightarrow> failure + nat \<times> nat list" where
  "reindex_edge topo old_to_new_mapping e st =
     (case st of (new_out_index, new_out_dest) \<Rightarrow>
        (case edge_dest topo e of
           Inl err \<Rightarrow> Inl err
         | Inr old_edge_dest \<Rightarrow>
             (case at old_to_new_mapping old_edge_dest of
                Inl err \<Rightarrow> Inl err
              | Inr new_edge_dest \<Rightarrow>
                  (case put new_out_dest new_out_index new_edge_dest of
                     Inl err \<Rightarrow> Inl err
                   | Inr new_out_dest' \<Rightarrow> Inr (new_out_index + 1, new_out_dest')))))"

definition reindex_node ::
  "bool \<Rightarrow> 'a GraphTopology_scheme \<Rightarrow> nat list \<Rightarrow> nat list \<Rightarrow> nat \<Rightarrow> nat list
   \<Rightarrow> failure + nat list" where
  "reindex_node debug_assertions topo old_to_new_mapping new_prefix_sum old_node_id new_out_dest =
     (case at old_to_new_mapping old_node_id of
        Inl err \<Rightarrow> Inl err
      | Inr new_node_id \<Rightarrow>
          (case (if new_node_id = 0 then Inr 0 else at new_prefix_sum (new_node_id - 1)) of
             Inl err \<Rightarrow> Inl err
           | Inr start \<Rightarrow>
               (case for_each (reindex_edge topo old_to_new_mapping)
                       [edge_begin topo old_node_id ..< edge_end topo old_node_id]
                       (start, new_out_dest) of
                  Inl err \<Rightarrow> Inl err
                | Inr (new_out_index, new_out_dest') \<Rightarrow>
                    if debug_assertions then
                      (case at new_prefix_sum new_node_id of
                         Inl err \<Rightarrow> Inl err
                       | Inr end_index \<Rightarrow>
                           if new_out_index \<noteq> end_index then Inl FatalAssertion
                           else Inr new_out_dest')
                    else Inr new_out_dest')))"

definition reindex_edges ::
  "bool \<Rightarrow> 'a GraphTopology_scheme \<Rightarrow> nat list \<Rightarrow> nat list \<Rightarrow> nat list
   \<Rightarrow> failure + nat list" where
  "reindex_edges debug_assertions topo old_to_new_mapping new_prefix_sum new_out_dest =
     for_each (reindex_node debug_assertions topo old_to_new_mapping new_prefix_sum)
       (all_nodes topo) new_out_dest"

text \<open>
  \<^verbatim>\<open>SortNodesByDegree\<close> rewrites the two arrays of the topology of the property graph
  in place; the result is the property graph with the new topology.
\<close>

definition SortNodesByDegree ::
  "((nat \<times> nat \<Rightarrow> nat \<times> nat \<Rightarrow> bool) \<Rightarrow> (nat \<times> nat) list \<Rightarrow> (nat \<times> nat) list)
   \<Rightarrow> bool \<Rightarrow> 'a PropertyGraph_scheme \<Rightarrow> failure + 'a PropertyGraph_scheme" where
  "SortNodesByDegree sort_fn debug_assertions pg =
     (let topo = topology pg;
          n_nodes = num_nodes topo;
          n_edges = num_edges topo;
          dn_pairs =
            fold (\<lambda>node dn_pairs. dn_pairs[node := (degree topo node, node)])
              (all_nodes topo) (replicate n_nodes (0, 0));
          dn_pairs = sort_fn greater_pair dn_pairs
      in case degrees_and_mapping n_nodes dn_pairs (replicate n_nodes 0, replicate n_nodes 0) of
           Inl err \<Rightarrow> Inl err
         | Inr (new_prefix_sum, old_to_new_mapping) \<Rightarrow>
             (let new_prefix_sum = partial_sum new_prefix_sum
              in case reindex_edges debug_assertions topo old_to_new_mapping new_prefix_sum
                        (replicate n_edges 0) of
                   Inl err \<Rightarrow> Inl err
                 | Inr new_out_dest \<Rightarrow>
                     Inr (pg\<lparr>topology := \<lparr>adj_indices = new_prefix_sum,
                                             dests = new_out_dest\<rparr>\<rparr>)))"

text \<open>
  A renaming of the nodes of a topology: \<open>perm\<close> lists the old ids in the order of the
  new ids, and \<open>old_to_new\<close> maps every old id to its new id.
\<close>

definition renaming :: "'a GraphTopology_scheme \<Rightarrow> nat list \<Rightarrow> nat list \<Rightarrow> bool" where
  "renaming g perm old_to_new \<longleftrightarrow>
     mset perm = mset [0 ..< num_nodes g]
     \<and> length old_to_new = num_nodes g
     \<and> list_all (\<lambda>k. old_to_new ! (perm ! k) = k) [0 ..< num_nodes g]"

subsection \<open>ShuffleTopology\<close>

text \<open>
  The node sort kinds \<^verbatim>\<open>NodeSortKind::kAny\<close>, \<^verbatim>\<open>kSortedByDegree\<close> and
  \<^verbatim>\<open>kSortedByNodeType\<close>; the first is written \<open>kAnyNodeOrder\<close> here, next to the
  \<open>kAny\<close> of the edge sort kinds.
\<close>

datatype NodeSortKind = kAnyNodeOrder | kSortedByDegree | kSortedByNodeType

record ShuffleTopology = EdgeShuffleTopology +
  node_sort_state :: NodeSortKind
  node_prop_indices :: "nat list"

text \<open>
  \<^verbatim>\<open>MakeNodeSortedTopo\<close>, first loop: position \<open>i\<close> of the sorted node ids gives the
  old node that becomes node \<open>i\<close>, and its degree in the seed topology;
  \<open>map_and_degree\<close> is the body of the loop.
\<close>

definition map_and_degree ::
  "'a GraphTopology_scheme \<Rightarrow> nat list \<Rightarrow> nat \<Rightarrow> nat list \<times> nat list
   \<Rightarrow> failure + nat list \<times> nat list" where
  "map_and_degree seed_topo node_prop_ids i st =
     (case st of (old_to_new_map, degrees) \<Rightarrow>
        (case at node_prop_ids i of
           Inl err \<Rightarrow> Inl err
         | Inr old \<Rightarrow>
             (case put old_to_new_map old i of
                Inl err \<Rightarrow> Inl err
              | Inr old_to_new_map' \<Rightarrow>
                  (case edges seed_topo old of
                     Inl err \<Rightarrow> Inl err
                   | Inr (e_beg, e_end) \<Rightarrow>
                       (case put degrees i (e_end - e_beg) of
                          Inl err \<Rightarrow> Inl err
                        | Inr degrees' \<Rightarrow> Inr (old_to_new_map', degrees'))))))"

definition map_and_degrees ::
  "'a GraphTopology_scheme \<Rightarrow> nat list \<Rightarrow> nat list \<times> nat list \<Rightarrow> failure + nat list \<times> nat list" where
  "map_and_degrees seed_topo node_prop_ids st =
     for_each (map_and_degree seed_topo node_prop_ids) [0 ..< length node_prop_ids] st"

text \<open>
  Second loop: \<open>shuffle_edge\<close> is the body of the loop over the edges of an old node,
  on the next edge id and the two new arrays; \<open>shuffle_node\<close> is the body of the loop
  over the old nodes. The assertion on the next edge id is a debug assertion.
\<close>

definition shuffle_edge ::
  "bool \<Rightarrow> 'a EdgeShuffleTopology_scheme \<Rightarrow> nat list \<Rightarrow> nat list \<Rightarrow> nat \<Rightarrow> nat
   \<Rightarrow> nat \<times> nat list \<times> nat list \<Rightarrow> failure + nat \<times> nat list \<times> nat list" where
  "shuffle_edge debug_assertions seed_topo old_to_new_map degrees new_srd_id e st =
     (case st of (new_out_index, new_dest_vec, new_edge_prop_indices) \<Rightarrow>
        (case edge_dest seed_topo e of
           Inl err \<Rightarrow> Inl err
         | Inr old_dest \<Rightarrow>
             (case at old_to_new_map old_dest of
                Inl err \<Rightarrow> Inl err
              | Inr new_edge_dest \<Rightarrow>
                  (case (if debug_assertions then
                           (case at degrees new_srd_id of
                              Inl err \<Rightarrow> Inl err
                            | Inr bound \<Rightarrow>
                                if \<not> new_out_index + 1 \<le> bound then Inl FatalAssertion
                                else Inr ())
                         else Inr ()) of
                     Inl err \<Rightarrow> Inl err
                   | Inr u \<Rightarrow>
                       (case put new_dest_vec new_out_index new_edge_dest of
                          Inl err \<Rightarrow> Inl err
                        | Inr new_dest_vec' \<Rightarrow>
                            (case edge_property_index seed_topo e of
                               Inl err \<Rightarrow> Inl err
                             | Inr prop \<Rightarrow>
                                 (case put new_edge_prop_indices new_out_index prop of
                                    Inl err \<Rightarrow> Inl err
                                  | Inr new_edge_prop_indices' \<Rightarrow>
                                      Inr (new_out_index + 1, new_dest_vec',
                                           new_edge_prop_indices'))))))))"

definition shuffle_node ::
  "bool \<Rightarrow> 'a EdgeShuffleTopology_scheme \<Rightarrow> nat list \<Rightarrow> nat list \<Rightarrow> nat
   \<Rightarrow> nat list \<times> nat list \<Rightarrow> failure + nat list \<times> nat list" where
  "shuffle_node debug_assertions seed_topo old_to_new_map degrees old_srd_id st =
     (case st of (new_dest_vec, new_edge_prop_indices) \<Rightarrow>
        (case at old_to_new_map old_srd_id of
           Inl err \<Rightarrow> Inl err
         | Inr new_srd_id \<Rightarrow>
             (case (if new_srd_id > 0 then at degrees (new_srd_id - 1) else Inr 0) of
                Inl err \<Rightarrow> Inl err
              | Inr new_out_index \<Rightarrow>
                  (case for_each
                          (shuffle_edge debug_assertions seed_topo old_to_new_map degrees new_srd_id)
                          [edge_begin seed_topo old_srd_id ..< edge_end seed_topo old_srd_id]
                          (new_out_index, new_dest_vec, new_edge_prop_indices) of
                     Inl err \<Rightarrow> Inl err
                   | Inr (new_out_index', new_dest_vec', new_edge_prop_indices') \<Rightarrow>
                       Inr (new_dest_vec', new_edge_prop_indices')))))"

text \<open>
  \<^verbatim>\<open>MakeNodeSortedTopo\<close>: the node ids \<open>0, 1, \<dots>\<close> are sorted by the comparator, the
  degrees of the nodes in the new order are summed up to the new adjacency indices, and
  the edges are moved. The assertions that the degrees are sorted and, in the
  constructors, that the property indices have the lengths of the arrays are debug
  assertions.
\<close>

definition MakeNodeSortedTopo ::
  "((nat \<Rightarrow> nat \<Rightarrow> bool) \<Rightarrow> nat list \<Rightarrow> nat list) \<Rightarrow> bool
   \<Rightarrow> 'a EdgeShuffleTopology_scheme \<Rightarrow> (nat \<Rightarrow> nat \<Rightarrow> bool) \<Rightarrow> NodeSortKind
   \<Rightarrow> failure + ShuffleTopology" where
  "MakeNodeSortedTopo sort_fn debug_assertions seed_topo cmp node_sort_todo =
     (let n_nodes = num_nodes seed_topo;
          n_edges = num_edges seed_topo;
          node_prop_ids = sort_fn cmp [0 ..< n_nodes]
      in case map_and_degrees seed_topo node_prop_ids
                (replicate n_nodes 0, replicate n_nodes 0) of
           Inl err \<Rightarrow> Inl err
         | Inr (old_to_new_map, degrees) \<Rightarrow>
             if debug_assertions \<and> \<not> is_sorted_by (<) degrees then Inl FatalAssertion
             else
               (let degrees = partial_sum degrees
                in case for_each
                          (shuffle_node debug_assertions seed_topo old_to_new_map degrees)
                          (all_nodes seed_topo)
                          (replicate n_edges 0, replicate n_edges 0) of
                     Inl err \<Rightarrow> Inl err
                   | Inr (new_dest_vec, new_edge_prop_indices) \<Rightarrow>
                       if debug_assertions
                          \<and> (length new_edge_prop_indices \<noteq> length new_dest_vec
                               \<or> length node_prop_ids \<noteq> length degrees)
                       then Inl FatalAssertion
                       else
                         Inr \<lparr>adj_indices = degrees, dests = new_dest_vec, is_valid = True,
                              tpose_state = tpose_state seed_topo,
                              edge_sort_state = edge_sort_state seed_topo,
                              edge_prop_indices = new_edge_prop_indices,
                              node_sort_state = node_sort_todo,
                              node_prop_indices = node_prop_ids\<rparr>))"

text \<open>
  \<^verbatim>\<open>MakeSortedByDegree\<close> and its comparator; the property graph is an argument that
  the function does not use.
\<close>

definition cmp_degree :: "'a GraphTopology_scheme \<Rightarrow> nat \<Rightarrow> nat \<Rightarrow> bool" where
  "cmp_degree seed_topo i1 i2 =
     (let d1 = degree seed_topo i1;
          d2 = degree seed_topo i2
      in if d1 = d2 then d1 < d2 else d1 < d2)"

definition MakeSortedByDegree ::
  "((nat \<Rightarrow> nat \<Rightarrow> bool) \<Rightarrow> nat list \<Rightarrow> nat list) \<Rightarrow> bool \<Rightarrow> 'b PropertyGraph_scheme
   \<Rightarrow> 'a EdgeShuffleTopology_scheme \<Rightarrow> failure + ShuffleTopology" where
  "MakeSortedByDegree sort_fn debug_assertions pg seed_topo =
     MakeNodeSortedTopo sort_fn debug_assertions seed_topo (cmp_degree seed_topo) kSortedByDegree"

subsection \<open>CondensedTypeIDMap\<close>

record CondensedTypeIDMap =
  type_to_index_map :: "EntityType \<rightharpoonup> nat"
  index_to_type_map :: "EntityType list"
  map_is_valid :: bool

text \<open>
  \<^verbatim>\<open>std::set::insert\<close> on an ordered set, kept as its ascending list of elements.
\<close>

fun set_insert :: "'a::linorder \<Rightarrow> 'a list \<Rightarrow> 'a list" where
  "set_insert x [] = [x]"
| "set_insert x (y # ys) =
     (if x < y then x # y # ys else if x = y then y # ys else y # set_insert x ys)"

text \<open>
  \<^verbatim>\<open>GetType\<close> indexes the vector; \<^verbatim>\<open>GetIndex\<close> is \<^verbatim>\<open>unordered_map::at\<close>, which
  fails for a key that is absent.
\<close>

definition GetType :: "CondensedTypeIDMap \<Rightarrow> nat \<Rightarrow> failure + EntityType" where
  "GetType m index = at (index_to_type_map m) index"

definition GetIndex :: "CondensedTypeIDMap \<Rightarrow> EntityType \<Rightarrow> failure + nat" where
  "GetIndex m edge_type =
     (case type_to_index_map m edge_type of None \<Rightarrow> Inl OutOfBoundsAccess | Some i \<Rightarrow> Inr i)"

definition num_unique_types :: "CondensedTypeIDMap \<Rightarrow> nat" where
  "num_unique_types m = length (index_to_type_map m)"

text \<open>
  \<^verbatim>\<open>MakeFromEdgeTypes\<close>. The parallel loop over the edges visits the edges in the
  order \<open>order\<close>, edge \<open>e\<close> on the thread \<open>tid_of e\<close>, which inserts the type of
  the edge into its own set of \<^verbatim>\<open>PerThreadStorage\<close>. The sets of the threads
  \<open>0 ..< activeThreads\<close> are then merged into one ordered set, and the types of the
  merged set receive the indices \<open>0, 1, \<dots>\<close> (a 32-bit counter) in its order.
\<close>

definition collect_edge_types ::
  "nat \<Rightarrow> (nat \<Rightarrow> nat) \<Rightarrow> nat list \<Rightarrow> PropertyGraph \<Rightarrow> EntityType list list" where
  "collect_edge_types activeThreads tid_of order pg =
     fold (\<lambda>e edgeTypes.
             edgeTypes[tid_of e := set_insert (GetTypeOfEdge pg e) (edgeTypes ! tid_of e)])
       order (replicate activeThreads [])"

definition merge_edge_types :: "nat \<Rightarrow> EntityType list list \<Rightarrow> EntityType list" where
  "merge_edge_types activeThreads edgeTypes =
     fold (\<lambda>i mergedSet. fold set_insert (edgeTypes ! i) mergedSet) [0 ..< activeThreads] []"

fun assign_index ::
  "EntityType \<Rightarrow> (EntityType \<rightharpoonup> nat) \<times> EntityType list \<times> nat \<Rightarrow>
   (EntityType \<rightharpoonup> nat) \<times> EntityType list \<times> nat" where
  "assign_index edgeType (edge_type_to_index, edge_index_to_type, num_edge_types) =
     (edge_type_to_index(edgeType \<mapsto> num_edge_types),
      edge_index_to_type @ [edgeType],
      (num_edge_types + 1) mod 2 ^ 32)"

definition assign_indices ::
  "EntityType list \<Rightarrow> (EntityType \<rightharpoonup> nat) \<times> EntityType list \<times> nat" where
  "assign_indices mergedSet = fold assign_index mergedSet (Map.empty, [], 0)"

definition MakeFromEdgeTypes ::
  "nat \<Rightarrow> (nat \<Rightarrow> nat) \<Rightarrow> nat list \<Rightarrow> PropertyGraph \<Rightarrow> CondensedTypeIDMap" where
  "MakeFromEdgeTypes activeThreads tid_of order pg =
     (case assign_indices
             (merge_edge_types activeThreads (collect_edge_types activeThreads tid_of order pg)) of
        (edge_type_to_index, edge_index_to_type, num_edge_types) \<Rightarrow>
          \<lparr>type_to_index_map = edge_type_to_index, index_to_type_map = edge_index_to_type,
           map_is_valid = True\<rparr>)"


subsection \<open>EdgeTypeAwareTopology\<close>

record EdgeTypeAwareTopology =
  edge_type_index :: CondensedTypeIDMap
  edge_shuff_topo :: EdgeShuffleTopology
  per_type_adj_indices :: "nat list"

text \<open>
  The loop \<^verbatim>\<open>while (type != edge_type_index->GetType(index))\<close> of
  \<^verbatim>\<open>CreatePerEdgeTypeAdjacencyIndex\<close>: every type index that the type of the edge \<open>e\<close>
  passes receives \<open>e\<close> as the end of its edges. \<open>GetType\<close> fails beyond the last type
  index, which bounds the loop. The assertion on the index is a debug assertion.
\<close>

function skip_types ::
  "bool \<Rightarrow> CondensedTypeIDMap \<Rightarrow> EntityType \<Rightarrow> nat \<Rightarrow> nat \<Rightarrow> nat \<times> nat list
   \<Rightarrow> failure + nat \<times> nat list" where
  "skip_types debug_assertions m type offset e (index, adj_indices') =
     (case GetType m index of
        Inl err \<Rightarrow> Inl err
      | Inr t \<Rightarrow>
          if type \<noteq> t then
            (case put adj_indices' (offset + index) e of
               Inl err \<Rightarrow> Inl err
             | Inr adj_indices'' \<Rightarrow>
                 if debug_assertions \<and> \<not> index + 1 < num_unique_types m
                 then Inl FatalAssertion
                 else skip_types debug_assertions m type offset e (index + 1, adj_indices''))
          else Inr (index, adj_indices'))"
  by pat_completeness auto
termination
  by (relation "measure (\<lambda>(debug_assertions, m, type, offset, e, index, adj_indices').
                           length (index_to_type_map m) - index)")
    (auto simp: GetType_def at_def split: if_splits)

text \<open>
  The body of the loop over the nodes: the edges of the node \<open>n\<close> are walked with the
  type index, and the type indices that remain receive the end of the edges of \<open>n\<close>.
\<close>

definition type_index_node ::
  "bool \<Rightarrow> 'b PropertyGraph_scheme \<Rightarrow> CondensedTypeIDMap \<Rightarrow> 'a EdgeShuffleTopology_scheme
   \<Rightarrow> nat \<Rightarrow> nat list \<Rightarrow> failure + nat list" where
  "type_index_node debug_assertions pg m e_topo n adj_indices' =
     (let offset = n * num_unique_types m
      in case for_each
                (\<lambda>e st. case edge_property_index e_topo e of
                            Inl err \<Rightarrow> Inl err
                          | Inr prop \<Rightarrow>
                              skip_types debug_assertions m (GetTypeOfEdge pg prop) offset e st)
                [edge_begin e_topo n ..< edge_end e_topo n] (0, adj_indices') of
           Inl err \<Rightarrow> Inl err
         | Inr (index, adj_indices'') \<Rightarrow>
             for_each (\<lambda>index adj_indices''. put adj_indices'' (offset + index) (edge_end e_topo n))
               [index ..< num_unique_types m] adj_indices'')"

text \<open>
  \<^verbatim>\<open>CreatePerEdgeTypeAdjacencyIndex\<close>. \<^verbatim>\<open>KATANA_LOG_VASSERT\<close> aborts when its
  condition is false.
\<close>

definition CreatePerEdgeTypeAdjacencyIndex ::
  "bool \<Rightarrow> 'b PropertyGraph_scheme \<Rightarrow> CondensedTypeIDMap \<Rightarrow> 'a EdgeShuffleTopology_scheme
   \<Rightarrow> failure + nat list" where
  "CreatePerEdgeTypeAdjacencyIndex debug_assertions pg m e_topo =
     (if num_nodes e_topo = 0 then
        (if \<not> num_edges e_topo = 0 then Inl FatalAssertion else Inr [])
      else if num_unique_types m = 0 then
        (if \<not> num_edges e_topo = 0 then Inl FatalAssertion else Inr [])
      else
        for_each (type_index_node debug_assertions pg m e_topo) (all_nodes e_topo)
          (replicate (num_nodes e_topo * num_unique_types m) 0))"

text \<open>
  \<^verbatim>\<open>MakeFrom\<close> with the debug assertions of the function and of the constructor.
\<close>

definition MakeFrom ::
  "bool \<Rightarrow> 'b PropertyGraph_scheme \<Rightarrow> CondensedTypeIDMap \<Rightarrow> EdgeShuffleTopology
   \<Rightarrow> failure + EdgeTypeAwareTopology" where
  "MakeFrom debug_assertions pg m e_topo =
     (if debug_assertions
         \<and> (\<not> has_edges_sorted_by e_topo kSortedByEdgeType
              \<or> num_edges e_topo \<noteq> num_edges (topology pg))
      then Inl FatalAssertion
      else case CreatePerEdgeTypeAdjacencyIndex debug_assertions pg m e_topo of
             Inl err \<Rightarrow> Inl err
           | Inr per_type \<Rightarrow>
               if debug_assertions
                  \<and> length per_type \<noteq> num_nodes e_topo * num_unique_types m
               then Inl FatalAssertion
               else Inr \<lparr>edge_type_index = m, edge_shuff_topo = e_topo,
                         per_type_adj_indices = per_type\<rparr>)"

text \<open>
  \<^verbatim>\<open>edges(N, edge_type)\<close>: the range between the end of the previous entry of the table
  and the entry of the node and the type. \<open>typed_edges\<close> stands for the overload with
  the type.
\<close>

definition typed_edges ::
  "bool \<Rightarrow> EdgeTypeAwareTopology \<Rightarrow> nat \<Rightarrow> EntityType \<Rightarrow> failure + (nat \<times> nat)" where
  "typed_edges debug_assertions t n edge_type =
     (if debug_assertions \<and> \<not> num_unique_types (edge_type_index t) > 0 then Inl FatalAssertion
      else case GetIndex (edge_type_index t) edge_type of
        Inl err \<Rightarrow> Inl err
      | Inr i \<Rightarrow>
          (let beg_idx = n * num_unique_types (edge_type_index t) + i
           in case (if beg_idx = 0 then Inr 0 else at (per_type_adj_indices t) (beg_idx - 1)) of
                Inl err \<Rightarrow> Inl err
              | Inr e_beg \<Rightarrow>
                  (let end_idx = n * num_unique_types (edge_type_index t) + i
                   in case at (per_type_adj_indices t) end_idx of
                        Inl err \<Rightarrow> Inl err
                      | Inr e_end \<Rightarrow> Inr (e_beg, e_end))))"

text \<open>
  The type of an edge of an edge-shuffle topology, resolved through the property index of
  the edge.
\<close>

definition edge_type_of ::
  "'b PropertyGraph_scheme \<Rightarrow> 'a EdgeShuffleTopology_scheme \<Rightarrow> nat \<Rightarrow> EntityType" where
  "edge_type_of pg e_topo e = GetTypeOfEdge pg (edge_prop_indices e_topo ! e)"

text \<open>
  The comparator of \<^verbatim>\<open>SortEdgesByTypeThenDest\<close> on two edges of the topology, and the
  order it leaves: the edges of every node are sorted by it.
\<close>

definition cmp_type_then_dest ::
  "'b PropertyGraph_scheme \<Rightarrow> 'a EdgeShuffleTopology_scheme \<Rightarrow> nat \<Rightarrow> nat \<Rightarrow> bool" where
  "cmp_type_then_dest pg e_topo e1 e2 =
     (let data1 = GetTypeOfEdge pg (edge_prop_indices e_topo ! e1);
          data2 = GetTypeOfEdge pg (edge_prop_indices e_topo ! e2)
      in if data1 \<noteq> data2 then data1 < data2 else dests e_topo ! e1 < dests e_topo ! e2)"

definition sorted_by_type_then_dest ::
  "'b PropertyGraph_scheme \<Rightarrow> 'a EdgeShuffleTopology_scheme \<Rightarrow> bool" where
  "sorted_by_type_then_dest pg e_topo =
     list_all (\<lambda>n. is_sorted_by (cmp_type_then_dest pg e_topo)
                      [edge_begin e_topo n ..< edge_end e_topo n])
       [0 ..< num_nodes e_topo]"

text \<open>
  The end of the edges of the node \<open>n\<close> whose type is at most the type with index \<open>i\<close>,
  when the edges of \<open>n\<close> are sorted by type.
\<close>

definition type_end ::
  "'b PropertyGraph_scheme \<Rightarrow> CondensedTypeIDMap \<Rightarrow> 'a EdgeShuffleTopology_scheme
   \<Rightarrow> nat \<Rightarrow> nat \<Rightarrow> nat" where
  "type_end pg m e_topo n i =
     edge_begin e_topo n
     + length (filter (\<lambda>x. edge_type_of pg e_topo x \<le> index_to_type_map m ! i)
                 [edge_begin e_topo n ..< edge_end e_topo n])"

subsection \<open>Example topologies\<close>

definition one_edge_sorted :: EdgeShuffleTopology where
  "one_edge_sorted =
     \<lparr>adj_indices = [1], dests = [0], is_valid = True, tpose_state = kNo,
      edge_sort_state = kSortedByDestID, edge_prop_indices = [0]\<rparr>"

definition long_last_range :: EdgeShuffleTopology where
  "long_last_range =
     \<lparr>adj_indices = [0, 65], dests = replicate 65 0, is_valid = True, tpose_state = kNo,
      edge_sort_state = kSortedByDestID, edge_prop_indices = [0 ..< 65]\<rparr>"

definition four_edges_pg :: PropertyGraph where
  "four_edges_pg =
     \<lparr>topology = \<lparr>adj_indices = [4], dests = [0, 0, 0, 0]\<rparr>,
      GetTypeOfEdge = (\<lambda>e. if e = 1 then 3 else 7),
      GetTypeOfNode = (\<lambda>n. 0)\<rparr>"

text \<open>
  A file of version 1 with one node, no edge, and the adjacency index 5.
\<close>

definition bad_adj_file :: "byte list" where
  "bad_adj_file = concat (map (le_bytes 8) [1, 0, 1, 0, 5])"

text \<open>
  A well-formed file with one node and no edge, a file of version 2, and a file whose
  header declares one node and that ends after the header.
\<close>

definition one_node_file :: "byte list" where
  "one_node_file = concat (map (le_bytes 8) [1, 0, 1, 0, 0])"

definition bad_version_file :: "byte list" where
  "bad_version_file = concat (map (le_bytes 8) [2, 0, 0, 0])"

definition short_file :: "byte list" where
  "short_file = concat (map (le_bytes 8) [1, 0, 1, 0])"

definition bad_adj_topology :: GraphTopology where
  "bad_adj_topology = \<lparr>adj_indices = [5], dests = []\<rparr>"

text \<open>The graph with the edges \<open>0 \<rightarrow> 1\<close>, \<open>0 \<rightarrow> 2\<close>, \<open>1 \<rightarrow> 2\<close> and \<open>3 \<rightarrow> 3\<close>.\<close>

definition four_nodes :: GraphTopology where
  "four_nodes = \<lparr>adj_indices = [2, 3, 3, 4], dests = [1, 2, 2, 3]\<rparr>"

definition four_nodes_pg :: PropertyGraph where
  "four_nodes_pg =
     \<lparr>topology = four_nodes, GetTypeOfEdge = (\<lambda>e. 0), GetTypeOfNode = (\<lambda>n. 0)\<rparr>"

text \<open>The verbatim copy of the four-node graph as an edge-shuffle topology.\<close>

definition four_nodes_seed :: EdgeShuffleTopology where
  "four_nodes_seed =
     \<lparr>adj_indices = [2, 3, 3, 4], dests = [1, 2, 2, 3], is_valid = True, tpose_state = kNo,
      edge_sort_state = kAny, edge_prop_indices = [0, 1, 2, 3]\<rparr>"

section \<open>Theorems\<close>

subsection \<open>Consequences of the CSR invariants\<close>

lemma csr_adj_le_edges:
  assumes "csr_invariants g" and "n < num_nodes g"
  shows "adj_indices g ! n \<le> num_edges g"
proof -
  have ne: "adj_indices g \<noteq> []" using assms(2) by (auto simp: num_nodes_def)
  then have "num_edges g = last (adj_indices g)" using assms(1) by (simp add: csr_invariants_def)
  also have "\<dots> = adj_indices g ! (length (adj_indices g) - 1)" using ne by (simp add: last_conv_nth)
  finally have e: "num_edges g = adj_indices g ! (length (adj_indices g) - 1)" .
  have "sorted (adj_indices g)" using assms(1) by (simp add: csr_invariants_def)
  then show ?thesis
    unfolding e using assms(2) ne by (intro sorted_nth_mono) (auto simp: num_nodes_def)
qed

lemma csr_dest_less_nodes:
  "csr_invariants g \<Longrightarrow> e < num_edges g \<Longrightarrow> dests g ! e < num_nodes g"
  by (simp add: csr_invariants_def num_edges_def)

lemma four_nodes_csr: "csr_invariants four_nodes"
  by (simp add: csr_invariants_def four_nodes_def num_nodes_def num_edges_def)

lemma four_nodes_pg_csr: "csr_invariants (topology four_nodes_pg)"
  by (simp add: four_nodes_pg_def four_nodes_csr)

lemma four_nodes_seed_csr: "csr_invariants four_nodes_seed"
  by (simp add: csr_invariants_def four_nodes_seed_def num_nodes_def num_edges_def)

subsection \<open>Loops, prefix sums and the placement of edges\<close>

lemma for_each_append:
  "for_each f (xs @ ys) s =
     (case for_each f xs s of Inl err \<Rightarrow> Inl err | Inr s' \<Rightarrow> for_each f ys s')"
  by (induction xs arbitrary: s) (auto split: sum.splits)

lemma for_each_cong:
  "(\<And>x s. x \<in> set xs \<Longrightarrow> f x s = g x s) \<Longrightarrow> for_each f xs s = for_each g xs s"
  by (induction xs arbitrary: s) (auto split: sum.splits)

lemma for_each_map: "for_each f (map h xs) s = for_each (\<lambda>x. f (h x)) xs s"
  by (induction xs arbitrary: s) (auto split: sum.splits)

lemma for_each_nested:
  "for_each (\<lambda>x. for_each (body x) (inner x)) xs s
   = for_each (\<lambda>(x, y). body x y) (concat (map (\<lambda>x. map (Pair x) (inner x)) xs)) s"
proof (induction xs arbitrary: s)
  case Nil
  then show ?case by simp
next
  case (Cons x xs)
  have "for_each (\<lambda>(x, y). body x y) (map (Pair x) (inner x)) s = for_each (body x) (inner x) s"
    by (simp add: for_each_map)
  then show ?case using Cons by (simp add: for_each_append split: sum.splits)
qed

lemma length_partial_sum_from [simp]: "length (partial_sum_from a xs) = length xs"
  by (induction xs arbitrary: a) auto

lemma length_partial_sum [simp]: "length (partial_sum xs) = length xs"
  by (simp add: partial_sum_def)

lemma partial_sum_from_nth:
  "i < length xs \<Longrightarrow> partial_sum_from a xs ! i = a + sum_list (take (Suc i) xs)"
proof (induction xs arbitrary: a i)
  case Nil
  then show ?case by simp
next
  case (Cons x xs)
  then show ?case by (cases i) simp_all
qed

lemma partial_sum_nth: "i < length xs \<Longrightarrow> partial_sum xs ! i = sum_list (take (Suc i) xs)"
  by (simp add: partial_sum_def partial_sum_from_nth)

lemma sum_list_take_mono: "i \<le> j \<Longrightarrow> sum_list (take i xs) \<le> sum_list (take j (xs :: nat list))"
proof -
  assume "i \<le> j"
  then have "take j xs = take i xs @ take (j - i) (drop i xs)"
    by (metis le_add_diff_inverse take_add)
  then show ?thesis by simp
qed

lemma sorted_partial_sum: "sorted (partial_sum xs)"
  unfolding sorted_iff_nth_mono
  by (auto simp: partial_sum_nth intro!: sum_list_take_mono)

lemma last_partial_sum:
  assumes "xs \<noteq> []"
  shows "last (partial_sum xs) = sum_list xs"
proof -
  have ne: "partial_sum xs \<noteq> []" using assms by (metis length_partial_sum length_0_conv)
  have "last (partial_sum xs) = partial_sum xs ! (length xs - 1)"
    using ne by (simp add: last_conv_nth)
  also have "\<dots> = sum_list (take (Suc (length xs - 1)) xs)"
    using assms by (intro partial_sum_nth) simp
  finally show ?thesis using assms by simp
qed

lemma length_start_offsets: "ps \<noteq> [] \<Longrightarrow> length (start_offsets ps) = length ps"
  by (cases ps) (auto simp: start_offsets_def not_less_eq_eq)

lemma start_offsets_partial_sum_nth:
  "k < length cs \<Longrightarrow> start_offsets (partial_sum cs) ! k = sum_list (take k cs)"
proof (cases k)
  case 0
  then show ?thesis by (simp add: start_offsets_def)
next
  case (Suc j)
  assume k: "k < length cs"
  have "start_offsets (partial_sum cs) ! k = map (\<lambda>n. partial_sum cs ! (n - 1)) [1 ..< length cs] ! j"
    by (simp add: start_offsets_def Suc)
  also have "\<dots> = partial_sum cs ! j"
    using k Suc by (subst nth_map) (simp_all add: nth_upt)
  also have "\<dots> = sum_list (take k cs)"
    using k Suc by (simp add: partial_sum_nth)
  finally show ?thesis .
qed

lemma edge_begin_partial_sum:
  "n < length cs \<Longrightarrow> edge_begin \<lparr>adj_indices = partial_sum cs, dests = ds\<rparr> n = sum_list (take n cs)"
  by (cases n) (simp_all add: edge_begin_def partial_sum_nth)

lemma edge_end_partial_sum:
  "n < length cs \<Longrightarrow> edge_end \<lparr>adj_indices = partial_sum cs, dests = ds\<rparr> n = sum_list (take (Suc n) cs)"
  by (simp add: edge_end_def partial_sum_nth)

lemma ranges_tile:
  assumes "sorted adj" and "k \<le> length adj"
  shows "concat (map (\<lambda>n. [(if n > 0 then adj ! (n - 1) else 0) ..< adj ! n]) [0 ..< k])
         = [0 ..< (if k > 0 then adj ! (k - 1) else 0)]"
  using assms(2)
proof (induction k)
  case 0
  then show ?case by simp
next
  case (Suc k)
  let ?b = "if k > 0 then adj ! (k - 1) else 0"
  have le: "?b \<le> adj ! k"
    using assms(1) Suc.prems by (auto simp: sorted_iff_nth_mono)
  have "concat (map (\<lambda>n. [(if n > 0 then adj ! (n - 1) else 0) ..< adj ! n]) [0 ..< Suc k])
        = [0 ..< ?b] @ [?b ..< adj ! k]"
    using Suc by simp
  also have "\<dots> = [0 ..< adj ! k]"
    using le by (metis le0 upt_add_eq_append le_add_diff_inverse)
  finally show ?case by simp
qed

lemma csr_ranges_tile:
  assumes "csr_invariants g"
  shows "concat (map (\<lambda>n. [edge_begin g n ..< edge_end g n]) [0 ..< num_nodes g])
         = [0 ..< num_edges g]"
proof -
  have s: "sorted (adj_indices g)" using assms by (simp add: csr_invariants_def)
  have e: "num_edges g = (if num_nodes g > 0 then adj_indices g ! (num_nodes g - 1) else 0)"
    using assms by (auto simp: csr_invariants_def num_nodes_def last_conv_nth)
  show ?thesis
    using ranges_tile [OF s, of "num_nodes g"]
    by (simp add: e edge_begin_def edge_end_def num_nodes_def)
qed

lemma bucket_snoc:
  "bucket k (items @ [it]) = (if fst it = k then bucket k items @ [snd it] else bucket k items)"
  by (simp add: bucket_def)

lemma place_ok:
  "k < length off \<Longrightarrow> off ! k < length out \<Longrightarrow>
   place k x (off, out) = Inr (off[k := off ! k + 1], out[off ! k := x])"
  by (simp add: place_def fetch_and_add_def put_def)

lemma scatter_places:
  assumes len: "length off0 = N"
    and layout: "\<forall>k < N. off0 ! k + cap k \<le> length out0"
    and ordered: "\<forall>k < N. \<forall>k' < N. k < k' \<longrightarrow> off0 ! k + cap k \<le> off0 ! k'"
    and keys: "\<forall>it \<in> set items. fst it < N"
    and fits: "\<forall>k < N. length (bucket k items) \<le> cap k"
  shows "\<exists>off out. for_each (\<lambda>(k, x). place k x) items (off0, out0) = Inr (off, out)
          \<and> length off = N \<and> length out = length out0
          \<and> (\<forall>k < N. off ! k = off0 ! k + length (bucket k items))
          \<and> (\<forall>k < N. \<forall>j < length (bucket k items). out ! (off0 ! k + j) = bucket k items ! j)"
  using keys fits
proof (induction items rule: rev_induct)
  case Nil
  then show ?case using len by (simp add: bucket_def)
next
  case (snoc it items)
  obtain k x where it: "it = (k, x)" by (cases it)
  have kN: "k < N" using snoc.prems(1) it by simp
  have keys': "\<forall>it \<in> set items. fst it < N" using snoc.prems(1) by simp
  have fits': "\<forall>k < N. length (bucket k items) \<le> cap k"
  proof (intro allI impI)
    fix k' assume "k' < N"
    then have "length (bucket k' (items @ [it])) \<le> cap k'" using snoc.prems(2) by simp
    then show "length (bucket k' items) \<le> cap k'" by (simp add: bucket_snoc split: if_splits)
  qed
  from snoc.IH [OF keys' fits'] obtain off out where
    run: "for_each (\<lambda>(k, x). place k x) items (off0, out0) = Inr (off, out)"
    and loff: "length off = N" and lout: "length out = length out0"
    and offs: "\<forall>k < N. off ! k = off0 ! k + length (bucket k items)"
    and vals: "\<forall>k < N. \<forall>j < length (bucket k items). out ! (off0 ! k + j) = bucket k items ! j"
    by blast
  define pos where "pos = off ! k"
  have pos: "pos = off0 ! k + length (bucket k items)" using offs kN by (simp add: pos_def)
  have "length (bucket k (items @ [it])) \<le> cap k" using snoc.prems(2) kN by simp
  then have room: "length (bucket k items) < cap k" by (simp add: bucket_snoc it)
  then have pos_lt: "pos < length out" using layout kN pos lout by (metis add_less_cancel_left less_le_trans)
  define off' where "off' = off[k := off ! k + 1]"
  define out' where "out' = out[pos := x]"
  have step: "place k x (off, out) = Inr (off', out')"
    using place_ok [of k off out x] kN loff pos_lt by (simp add: pos_def off'_def out'_def)
  have run': "for_each (\<lambda>(k, x). place k x) (items @ [it]) (off0, out0) = Inr (off', out')"
    by (simp add: for_each_append run it step)
  have offs': "off' ! k' = off0 ! k' + length (bucket k' (items @ [it]))" if "k' < N" for k'
    using that offs loff by (simp add: off'_def bucket_snoc it nth_list_update)
  have vals': "out' ! (off0 ! k' + j) = bucket k' (items @ [it]) ! j"
    if k': "k' < N" and j: "j < length (bucket k' (items @ [it]))" for k' j
  proof (cases "k' = k")
    case True
    show ?thesis
    proof (cases "j = length (bucket k items)")
      case True
      then show ?thesis using \<open>k' = k\<close> pos pos_lt by (simp add: out'_def bucket_snoc it)
    next
      case False
      then have jl: "j < length (bucket k items)" using j \<open>k' = k\<close> by (simp add: bucket_snoc it)
      then have "off0 ! k + j \<noteq> pos" using pos by simp
      then have "out' ! (off0 ! k + j) = out ! (off0 ! k + j)" by (simp add: out'_def)
      also have "\<dots> = bucket k items ! j" using vals kN jl by simp
      finally show ?thesis using \<open>k' = k\<close> jl by (simp add: bucket_snoc it nth_append)
    qed
  next
    case False
    then have same: "bucket k' (items @ [it]) = bucket k' items" by (auto simp: bucket_snoc it)
    then have jl: "j < length (bucket k' items)" using j by simp
    have jc: "j < cap k'" using jl fits' k' by (metis less_le_trans)
    have "off0 ! k' + j \<noteq> pos"
    proof (cases "k' < k")
      case True
      then have "off0 ! k' + cap k' \<le> off0 ! k" using ordered k' kN by simp
      then show ?thesis using jc pos by simp
    next
      case False
      then have "k < k'" using \<open>k' \<noteq> k\<close> by simp
      then have "off0 ! k + cap k \<le> off0 ! k'" using ordered k' kN by simp
      then show ?thesis using room pos by simp
    qed
    then have "out' ! (off0 ! k' + j) = out ! (off0 ! k' + j)" by (simp add: out'_def)
    then show ?thesis using vals k' jl same by simp
  qed
  show ?case
    using run' loff lout offs' vals' by (intro exI [of _ off'] exI [of _ out']) (simp add: off'_def out'_def)
qed

lemma sum_list_add_mset_at:
  "distinct ks \<Longrightarrow>
   sum_list (map (\<lambda>k. if k0 = k then add_mset a (f k) else f k) ks)
   = (if k0 \<in> set ks then add_mset a (sum_list (map f ks)) else sum_list (map f ks))"
  by (induction ks) auto

lemma bucket_Nil [simp]: "bucket k [] = []"
  by (simp add: bucket_def)

lemma sum_list_empty_msets: "sum_list (map (\<lambda>k. {#}) ks) = ({#} :: 'a multiset)"
  by (induction ks) auto

lemma bucket_Cons:
  "bucket k (it # items) = (if fst it = k then snd it # bucket k items else bucket k items)"
  by (simp add: bucket_def)

lemma mset_buckets:
  assumes "\<forall>it \<in> set items. fst it < N"
  shows "mset (concat (map (\<lambda>k. map (Pair k) (bucket k items)) [0 ..< N])) = mset items"
  using assms
proof (induction items)
  case Nil
  then show ?case by (simp add: mset_concat comp_def sum_list_empty_msets)
next
  case (Cons it items)
  have ih: "sum_list (map (\<lambda>k. mset (map (Pair k) (bucket k items))) [0 ..< N]) = mset items"
    using Cons by (simp add: mset_concat comp_def)
  have "(\<lambda>k. mset (map (Pair k) (bucket k (it # items))))
        = (\<lambda>k. if fst it = k then add_mset it (mset (map (Pair k) (bucket k items)))
                else mset (map (Pair k) (bucket k items)))"
    by (rule ext) (auto simp: bucket_Cons)
  then have "sum_list (map (\<lambda>k. mset (map (Pair k) (bucket k (it # items)))) [0 ..< N])
        = add_mset it (sum_list (map (\<lambda>k. mset (map (Pair k) (bucket k items))) [0 ..< N]))"
    using Cons.prems by (simp add: sum_list_add_mset_at)
  then show ?case using ih by (simp add: mset_concat comp_def)
qed

lemma sum_length_buckets:
  assumes "\<forall>it \<in> set items. fst it < N"
  shows "sum_list (map (\<lambda>k. length (bucket k items)) [0 ..< N]) = length items"
proof -
  have "length items = size (mset (concat (map (\<lambda>k. map (Pair k) (bucket k items)) [0 ..< N])))"
    using mset_buckets [OF assms] by (metis size_mset)
  also have "\<dots> = sum_list (map (\<lambda>k. length (bucket k items)) [0 ..< N])"
    by (simp add: length_concat comp_def)
  finally show ?thesis by simp
qed

lemma length_bucket_count: "length (bucket k items) = count_list (map fst items) k"
  by (induction items) (auto simp: bucket_Cons)

lemma count_keys:
  "\<forall>k \<in> set keys. k < length out0 \<Longrightarrow>
   for_each (\<lambda>k out. case fetch_and_add out k of
                        Inl err \<Rightarrow> Inl err
                      | Inr (old, out') \<Rightarrow> Inr out') keys out0
   = Inr (map (\<lambda>k. out0 ! k + count_list keys k) [0 ..< length out0])"
proof (induction keys arbitrary: out0)
  case Nil
  then show ?case by (simp add: map_nth)
next
  case (Cons k keys)
  let ?out1 = "out0[k := out0 ! k + 1]"
  have k: "k < length out0" using Cons.prems by simp
  have "map (\<lambda>k'. ?out1 ! k' + count_list keys k') [0 ..< length out0]
        = map (\<lambda>k'. out0 ! k' + count_list (k # keys) k') [0 ..< length out0]"
    by (rule map_cong) (auto simp: nth_list_update)
  moreover have "\<forall>k' \<in> set keys. k' < length ?out1" using Cons.prems by simp
  ultimately show ?case using Cons.IH [of ?out1] k by (simp add: fetch_and_add_def)
qed

lemma all_nodes_csr: "csr_invariants g \<Longrightarrow> all_nodes g = [0 ..< num_nodes g]"
  by (simp add: all_nodes_def csr_invariants_def)

lemma map_snd_edge_ids:
  assumes "csr_invariants g"
  shows "map snd (edge_ids g) = [0 ..< num_edges g]"
proof -
  have "map snd (edge_ids g) = concat (map (\<lambda>n. [edge_begin g n ..< edge_end g n]) [0 ..< num_nodes g])"
    by (simp add: edge_ids_def map_concat comp_def)
  then show ?thesis using csr_ranges_tile [OF assms] by simp
qed

lemma edge_ids_bounds:
  assumes "csr_invariants g" and "(n, e) \<in> set (edge_ids g)"
  shows "n < num_nodes g" and "e < num_edges g"
proof -
  show "n < num_nodes g" using assms(2) by (auto simp: edge_ids_def)
  have "e \<in> set (map snd (edge_ids g))" using assms(2) by force
  then show "e < num_edges g" using map_snd_edge_ids [OF assms(1)] by simp
qed

lemma edge_list_edge_ids: "edge_list g = map (\<lambda>(n, e). (n, dests g ! e)) (edge_ids g)"
  by (simp add: edge_list_def edge_ids_def map_concat comp_def)

lemma map_dest_edge_ids:
  assumes "csr_invariants g"
  shows "map (\<lambda>(n, e). dests g ! e) (edge_ids g) = dests g"
proof -
  have "map (\<lambda>(n, e). dests g ! e) (edge_ids g) = map (\<lambda>e. dests g ! e) (map snd (edge_ids g))"
    by (simp add: comp_def case_prod_unfold)
  then show ?thesis using map_snd_edge_ids [OF assms] by (simp add: num_edges_def map_nth)
qed

lemma sum_list_take_Suc:
  "k < length (cs :: nat list) \<Longrightarrow> sum_list (take (Suc k) cs) = sum_list (take k cs) + cs ! k"
  by (simp add: take_Suc_conv_app_nth)

lemma map_upt_shift: "map f [b ..< b + c] = map (\<lambda>j. f (b + j)) [0 ..< c]"
proof -
  have "[b ..< b + c] = map (\<lambda>j. b + j) [0 ..< c]"
    by (induction c) simp_all
  then show ?thesis by (simp add: comp_def)
qed

lemma blocks_out_neighbors:
  assumes lens: "\<forall>k < length caps. length (content k) = caps ! k"
    and slices: "\<forall>k < length caps. \<forall>j < caps ! k.
                   out ! (sum_list (take k caps) + j) = content k ! j"
    and k: "k < length caps"
  shows "out_neighbors \<lparr>adj_indices = partial_sum caps, dests = out\<rparr> k = content k"
proof -
  let ?g = "\<lparr>adj_indices = partial_sum caps, dests = out\<rparr>"
  let ?b = "sum_list (take k caps)"
  have b: "edge_begin ?g k = ?b" using k by (rule edge_begin_partial_sum)
  have e: "edge_end ?g k = ?b + caps ! k"
    using k by (simp add: edge_end_partial_sum sum_list_take_Suc)
  have "out_neighbors ?g k = map (\<lambda>j. out ! (?b + j)) [0 ..< caps ! k]"
    by (simp add: out_neighbors_def b e map_upt_shift)
  also have "\<dots> = content k"
    using lens slices k by (intro nth_equalityI) simp_all
  finally show ?thesis .
qed

lemma edge_list_out_neighbors:
  "edge_list g = concat (map (\<lambda>n. map (Pair n) (out_neighbors g n)) [0 ..< num_nodes g])"
  by (simp add: edge_list_def out_neighbors_def comp_def)

lemma blocks_edge_list:
  assumes lens: "\<forall>k < length caps. length (content k) = caps ! k"
    and slices: "\<forall>k < length caps. \<forall>j < caps ! k.
                   out ! (sum_list (take k caps) + j) = content k ! j"
  shows "edge_list \<lparr>adj_indices = partial_sum caps, dests = out\<rparr>
         = concat (map (\<lambda>k. map (Pair k) (content k)) [0 ..< length caps])"
proof -
  let ?g = "\<lparr>adj_indices = partial_sum caps, dests = out\<rparr>"
  have eq: "map (\<lambda>n. map (Pair n) (out_neighbors ?g n)) [0 ..< length caps]
        = map (\<lambda>k. map (Pair k) (content k)) [0 ..< length caps]"
    using blocks_out_neighbors [OF lens slices] by (intro map_cong) simp_all
  show ?thesis unfolding edge_list_out_neighbors by (simp add: num_nodes_def eq)
qed

lemma blocks_csr:
  assumes len_out: "length out = sum_list caps"
    and lens: "\<forall>k < length caps. length (content k) = caps ! k"
    and slices: "\<forall>k < length caps. \<forall>j < caps ! k.
                   out ! (sum_list (take k caps) + j) = content k ! j"
    and nodes: "\<forall>k < length caps. \<forall>d \<in> set (content k). d < length caps"
    and n32: "length caps < 2 ^ 32" and e64: "sum_list caps < 2 ^ 64"
  shows "csr_invariants \<lparr>adj_indices = partial_sum caps, dests = out\<rparr>"
proof -
  let ?g = "\<lparr>adj_indices = partial_sum caps, dests = out\<rparr>"
  let ?N = "length caps"
  have last: "num_edges ?g = (if adj_indices ?g = [] then 0 else last (adj_indices ?g))"
  proof (cases "caps = []")
    case True
    then show ?thesis using len_out by (simp add: num_edges_def partial_sum_def)
  next
    case False
    then have "partial_sum caps \<noteq> []" by (metis length_partial_sum length_0_conv)
    then show ?thesis using False len_out by (simp add: num_edges_def last_partial_sum)
  qed
  have dest: "d < ?N" if "d \<in> set out" for d
  proof -
    from that obtain p where p: "p < length out" "out ! p = d" by (auto simp: in_set_conv_nth)
    then have ne: "caps \<noteq> []" using len_out by auto
    have "concat (map (\<lambda>n. [(if n > 0 then partial_sum caps ! (n - 1) else 0) ..< partial_sum caps ! n])
            [0 ..< ?N])
          = [0 ..< (if ?N > 0 then partial_sum caps ! (?N - 1) else 0)]"
      by (intro ranges_tile sorted_partial_sum) simp
    also have "(if ?N > 0 then partial_sum caps ! (?N - 1) else 0) = sum_list caps"
      using ne by (simp add: partial_sum_nth)
    finally have "p \<in> set (concat (map (\<lambda>n. [(if n > 0 then partial_sum caps ! (n - 1) else 0)
                                              ..< partial_sum caps ! n]) [0 ..< ?N]))"
      using p(1) len_out by simp
    then obtain n where n: "n < ?N"
      and lo: "(if n > 0 then partial_sum caps ! (n - 1) else 0) \<le> p"
      and hi: "p < partial_sum caps ! n"
      by auto
    have lo': "sum_list (take n caps) \<le> p"
      using lo n by (cases n) (simp_all add: partial_sum_nth)
    have hi': "p < sum_list (take n caps) + caps ! n"
      using hi n by (simp add: partial_sum_nth sum_list_take_Suc)
    define j where "j = p - sum_list (take n caps)"
    have j: "j < caps ! n" "p = sum_list (take n caps) + j" using lo' hi' by (simp_all add: j_def)
    then have "out ! p = content n ! j" using slices n by simp
    moreover have "content n ! j \<in> set (content n)" using lens n j(1) by simp
    ultimately show ?thesis using nodes n p(2) by auto
  qed
  show ?thesis
    unfolding csr_invariants_def
    using last dest n32 e64 len_out
    by (simp add: sorted_partial_sum num_nodes_def num_edges_def)
qed

lemma scatter_topology:
  assumes N: "0 < N" "N < 2 ^ 32"
    and keys: "\<forall>it \<in> set items. fst it < N"
    and vals: "\<forall>it \<in> set items. snd it < N"
    and small: "length items < 2 ^ 64"
    and caps: "caps = map (\<lambda>k. length (bucket k items)) [0 ..< N]"
  shows "\<exists>off out.
           for_each (\<lambda>(k, x). place k x) items
             (start_offsets (partial_sum caps), replicate (length items) 0) = Inr (off, out)
           \<and> length out = length items
           \<and> csr_invariants \<lparr>adj_indices = partial_sum caps, dests = out\<rparr>
           \<and> mset (edge_list \<lparr>adj_indices = partial_sum caps, dests = out\<rparr>) = mset items
           \<and> (\<forall>k < N. out_neighbors \<lparr>adj_indices = partial_sum caps, dests = out\<rparr> k
                         = bucket k items)"
proof -
  let ?off0 = "start_offsets (partial_sum caps)"
  let ?out0 = "replicate (length items) (0 :: nat)"
  have lcaps: "length caps = N" by (simp add: caps)
  have capk: "caps ! k = length (bucket k items)" if "k < N" for k using that by (simp add: caps)
  have total: "sum_list caps = length items"
    using sum_length_buckets [OF keys] by (simp add: caps)
  have ne: "partial_sum caps \<noteq> []" using N(1) lcaps by (metis length_partial_sum length_0_conv less_numeral_extra(3))
  have loff: "length ?off0 = N" using length_start_offsets [OF ne] lcaps by simp
  have off0: "?off0 ! k = sum_list (take k caps)" if "k < N" for k
    using that lcaps by (simp add: start_offsets_partial_sum_nth)
  have layout: "\<forall>k < N. ?off0 ! k + length (bucket k items) \<le> length ?out0"
  proof (intro allI impI)
    fix k assume k: "k < N"
    have "?off0 ! k + length (bucket k items) = sum_list (take (Suc k) caps)"
      using k lcaps by (simp add: off0 capk sum_list_take_Suc)
    also have "\<dots> \<le> sum_list (take N caps)" using k by (intro sum_list_take_mono) simp
    finally show "?off0 ! k + length (bucket k items) \<le> length ?out0"
      using total lcaps by simp
  qed
  have ordered: "\<forall>k < N. \<forall>k' < N. k < k' \<longrightarrow> ?off0 ! k + length (bucket k items) \<le> ?off0 ! k'"
  proof (intro allI impI)
    fix k k' assume k: "k < N" and k': "k' < N" and lt: "k < k'"
    have "?off0 ! k + length (bucket k items) = sum_list (take (Suc k) caps)"
      using k lcaps by (simp add: off0 capk sum_list_take_Suc)
    also have "\<dots> \<le> sum_list (take k' caps)" using lt by (intro sum_list_take_mono) simp
    finally show "?off0 ! k + length (bucket k items) \<le> ?off0 ! k'" using k' by (simp add: off0)
  qed
  have fits: "\<forall>k < N. length (bucket k items) \<le> length (bucket k items)" by simp
  from scatter_places [OF loff layout ordered keys fits] obtain off out where
    run: "for_each (\<lambda>(k, x). place k x) items (?off0, ?out0) = Inr (off, out)"
    and lout: "length out = length ?out0"
    and slices0: "\<forall>k < N. \<forall>j < length (bucket k items). out ! (?off0 ! k + j) = bucket k items ! j"
    by blast
  let ?g = "\<lparr>adj_indices = partial_sum caps, dests = out\<rparr>"
  have lens: "\<forall>k < length caps. length (bucket k items) = caps ! k"
    using capk lcaps by simp
  have slices: "\<forall>k < length caps. \<forall>j < caps ! k.
                  out ! (sum_list (take k caps) + j) = bucket k items ! j"
    using slices0 off0 capk lcaps by simp
  have nodes: "\<forall>k < length caps. \<forall>d \<in> set (bucket k items). d < length caps"
    using vals lcaps by (auto simp: bucket_def)
  have csr: "csr_invariants ?g"
    using lout total N(2) small lcaps
    by (intro blocks_csr [OF _ lens slices nodes]) simp_all
  have "edge_list ?g = concat (map (\<lambda>k. map (Pair k) (bucket k items)) [0 ..< N])"
    using blocks_edge_list [OF lens slices] lcaps by simp
  then have ms: "mset (edge_list ?g) = mset items" using mset_buckets [OF keys] by simp
  have nb: "\<forall>k < N. out_neighbors ?g k = bucket k items"
    using blocks_out_neighbors [OF lens slices] lcaps by simp
  show ?thesis using run lout csr ms nb by auto
qed

lemma filter_concat_blocks:
  "distinct ks \<Longrightarrow>
   filter (\<lambda>p. fst p = n) (concat (map (\<lambda>k. map (Pair k) (c k)) ks))
   = (if n \<in> set ks then map (Pair n) (c n) else [])"
proof (induction ks)
  case Nil
  then show ?case by simp
next
  case (Cons k ks)
  have "filter (\<lambda>p. fst p = n) (map (Pair k) (c k)) = (if k = n then map (Pair k) (c k) else [])"
    by (simp add: filter_map comp_def)
  then show ?case using Cons by auto
qed

lemma out_neighbors_bucket:
  "n < num_nodes g \<Longrightarrow> out_neighbors g n = bucket n (edge_list g)"
  by (simp add: bucket_def edge_list_out_neighbors filter_concat_blocks comp_def)

lemma mset_bucket:
  "mset (bucket k items) = image_mset snd (filter_mset (\<lambda>it. fst it = k) (mset items))"
  by (simp add: bucket_def)

lemma for_each_concat:
  "for_each (\<lambda>x. for_each g (f x)) xs s = for_each g (concat (map f xs)) s"
  by (induction xs arbitrary: s) (auto simp: for_each_append split: sum.splits)

lemma for_each_filter:
  "for_each (\<lambda>x s. if P x then f x s else Inr s) xs s = for_each f (filter P xs) s"
  by (induction xs arbitrary: s) (auto split: sum.splits)

lemma bucket_append [simp]: "bucket k (xs @ ys) = bucket k xs @ bucket k ys"
  by (simp add: bucket_def)

lemma degrees_fold:
  "n \<le> length out \<Longrightarrow>
   fold (\<lambda>n out. out[n := f n]) [0 ..< n] out = map f [0 ..< n] @ drop n out"
proof (induction n)
  case 0
  then show ?case by simp
next
  case (Suc n)
  then have "fold (\<lambda>n out. out[n := f n]) [0 ..< Suc n] out = (map f [0 ..< n] @ drop n out)[n := f n]"
    by simp
  also have "\<dots> = map f [0 ..< n] @ (drop n out)[0 := f n]"
    by (simp add: list_update_append)
  also have "(drop n out)[0 := f n] = f n # drop (Suc n) out"
    using Suc.prems by (metis Cons_nth_drop_Suc Suc_le_lessD list_update_code(2))
  finally show ?case by simp
qed

lemma length_edge_list:
  assumes "csr_invariants g"
  shows "length (edge_list g) = num_edges g"
  using map_snd_edge_ids [OF assms]
  by (metis edge_list_edge_ids length_map length_upt diff_zero)

lemma degree_count:
  assumes "n < num_nodes g"
  shows "edge_end g n - edge_begin g n = count_list (map fst (edge_list g)) n"
proof -
  have "edge_end g n - edge_begin g n = length (out_neighbors g n)"
    by (simp add: out_neighbors_def)
  also have "\<dots> = length (bucket n (edge_list g))"
    using assms by (simp add: out_neighbors_bucket)
  finally show ?thesis by (simp add: length_bucket_count)
qed

lemma degree_bucket:
  "n < num_nodes g \<Longrightarrow> degree g n = length (bucket n (edge_list g))"
  using degree_count [of n g] by (simp add: degree_def length_bucket_count)

lemma sum_degrees:
  assumes "csr_invariants g"
  shows "sum_list (map (degree g) [0 ..< num_nodes g]) = num_edges g"
proof -
  have keys: "\<forall>it \<in> set (edge_list g). fst it < num_nodes g"
    using edge_ids_bounds(1) [OF assms] by (auto simp: edge_list_edge_ids)
  have eq: "map (degree g) [0 ..< num_nodes g]
        = map (\<lambda>k. length (bucket k (edge_list g))) [0 ..< num_nodes g]"
    by (intro map_cong) (simp_all add: degree_bucket)
  show ?thesis
    unfolding eq using sum_length_buckets [OF keys] length_edge_list [OF assms] by simp
qed

lemma sum_list_perm:
  fixes f :: "nat \<Rightarrow> nat"
  assumes "mset perm = mset xs"
  shows "sum_list (map f perm) = sum_list (map f xs)"
proof -
  have "sum_list (map f perm) = sum_mset (image_mset f (mset perm))"
    by (metis mset_map sum_mset_sum_list)
  also have "\<dots> = sum_list (map f xs)"
    unfolding assms by (metis mset_map sum_mset_sum_list)
  finally show ?thesis .
qed

lemma in_edge_ids:
  "(n, e) \<in> set (edge_ids g) \<longleftrightarrow> n < num_nodes g \<and> edge_begin g n \<le> e \<and> e < edge_end g n"
proof -
  have "(n, e) \<in> Pair x ` {edge_begin g x ..< edge_end g x}
        \<longleftrightarrow> x = n \<and> edge_begin g n \<le> e \<and> e < edge_end g n" for x
    by auto
  then show ?thesis by (simp add: edge_ids_def)
qed

lemma sum_list_perm_mset:
  fixes f :: "nat \<Rightarrow> 'a multiset"
  assumes "mset perm = mset xs"
  shows "sum_list (map f perm) = sum_list (map f xs)"
proof -
  have "sum_list (map f perm) = sum_mset (image_mset f (mset perm))"
    by (metis mset_map sum_mset_sum_list)
  also have "\<dots> = sum_list (map f xs)"
    unfolding assms by (metis mset_map sum_mset_sum_list)
  finally show ?thesis .
qed

lemma image_mset_sum_list:
  "image_mset f (sum_list Ms) = sum_list (map (image_mset f) Ms)"
  by (induction Ms) auto

lemma degree_blocks:
  "k < length caps \<Longrightarrow> degree \<lparr>adj_indices = partial_sum caps, dests = out\<rparr> k = caps ! k"
  by (simp add: degree_def edge_begin_partial_sum edge_end_partial_sum sum_list_take_Suc)

lemma edge_list_bounds:
  assumes "csr_invariants g" and "(s, d) \<in> set (edge_list g)"
  shows "s < num_nodes g" and "d < num_nodes g"
proof -
  from assms(2) obtain e where e: "(s, e) \<in> set (edge_ids g)" "d = dests g ! e"
    by (auto simp: edge_list_edge_ids)
  show "s < num_nodes g" using edge_ids_bounds(1) [OF assms(1) e(1)] .
  show "d < num_nodes g"
    using edge_ids_bounds(2) [OF assms(1) e(1)] assms(1) e(2)
    by (simp add: csr_invariants_def num_edges_def)
qed

lemma write_run:
  assumes "start + length es \<le> length arr"
  shows "\<exists>arr'. for_each (\<lambda>e (idx, arr). case put arr idx (v e) of
                                             Inl err \<Rightarrow> Inl err
                                           | Inr arr' \<Rightarrow> Inr (idx + 1, arr')) es (start, arr)
                 = Inr (start + length es, arr')
           \<and> length arr' = length arr
           \<and> (\<forall>j < length es. arr' ! (start + j) = v (es ! j))
           \<and> (\<forall>p. p < start \<or> start + length es \<le> p \<longrightarrow> arr' ! p = arr ! p)"
  using assms
proof (induction es arbitrary: start arr)
  case Nil
  then show ?case by simp
next
  case (Cons e es)
  let ?arr1 = "arr[start := v e]"
  have "Suc start + length es \<le> length ?arr1" using Cons.prems by simp
  from Cons.IH [OF this] obtain arr' where
    run: "for_each (\<lambda>e (idx, arr). case put arr idx (v e) of
                                             Inl err \<Rightarrow> Inl err
                                           | Inr arr' \<Rightarrow> Inr (idx + 1, arr')) es (Suc start, ?arr1)
                 = Inr (Suc start + length es, arr')"
    and la: "length arr' = length ?arr1"
    and blk: "\<forall>j < length es. arr' ! (Suc start + j) = v (es ! j)"
    and rest: "\<forall>p. p < Suc start \<or> Suc start + length es \<le> p \<longrightarrow> arr' ! p = ?arr1 ! p"
    by blast
  have st: "start < length arr" using Cons.prems by simp
  have run': "for_each (\<lambda>e (idx, arr). case put arr idx (v e) of
                                             Inl err \<Rightarrow> Inl err
                                           | Inr arr' \<Rightarrow> Inr (idx + 1, arr')) (e # es) (start, arr)
                 = Inr (start + length (e # es), arr')"
    using st run by (simp add: put_def)
  have blk': "arr' ! (start + j) = v ((e # es) ! j)" if "j < length (e # es)" for j
  proof (cases j)
    case 0
    then show ?thesis using rest st by simp
  next
    case (Suc i)
    then show ?thesis using blk that by simp
  qed
  have rest': "arr' ! p = arr ! p" if "p < start \<or> start + length (e # es) \<le> p" for p
  proof -
    have "arr' ! p = ?arr1 ! p" using rest that by auto
    moreover have "p \<noteq> start" using that by auto
    ultimately show ?thesis by simp
  qed
  show ?case using run' la blk' rest' by (intro exI [of _ arr']) simp
qed

subsection \<open>find\_edges on a topology sorted by destination\<close>

text \<open>
  C2. The claim: on a topology that is not sorted by \<open>kSortedByDestID\<close>, \<open>find_edges\<close>
  of a node with an edge aborts on a fatal assertion, and on a sorted topology it returns
  the range of the edges from \<open>src\<close> to \<open>dst\<close>. The code asserts the negated condition:
  on the sorted topology with the single edge \<open>0 \<rightarrow> 0\<close>, \<open>find_edges 0 0\<close> aborts on
  the assertion, and on the same topology in sort state \<open>kAny\<close> it returns a range.
\<close>

theorem find_edges_sorted_aborts:
  "find_edges one_edge_sorted 0 0 = Inl FatalAssertion
   \<and> find_edges (one_edge_sorted\<lparr>edge_sort_state := kAny\<rparr>) 0 0 = Inr (0, 1)"
  by (simp add: find_edges_def one_edge_sorted_def edges_def num_nodes_def edge_begin_def
      edge_end_def has_edges_sorted_by_def comp_edge_node_def comp_node_edge_def
      edge_dest_def at_def)

subsection \<open>find\_edge past the end of the last range\<close>

text \<open>
  C3. The claim: on a topology sorted by \<open>kSortedByDestID\<close>, \<open>find_edge\<close> and
  \<open>find_edges\<close> find the edges from \<open>src\<close> to \<open>dst\<close>, and for an absent \<open>dst\<close> larger
  than every destination of \<open>src\<close> neither reads out of bounds. On the sorted topology of
  two nodes where node 1 has 65 edges to node 0, \<open>find_edge 1 1\<close> reads the destination
  array at index 65, its length, and \<open>find_edges 1 0\<close> aborts on the assertion although
  the 65 edges from 1 to 0 exist.
\<close>

theorem find_edge_absent_reads_past_end:
  "find_edge long_last_range 1 1 = Inl OutOfBoundsAccess
   \<and> find_edges long_last_range 1 0 = Inl FatalAssertion"
  by (simp add: find_edge_def find_edges_def long_last_range_def edges_def num_nodes_def
      edge_begin_def edge_end_def kBinarySearchThreshold_def comp_edge_node_def
      has_edges_sorted_by_def edge_dest_def at_def)

subsection \<open>The symmetric graph\<close>

lemma mset_both_ways:
  "mset (both_ways el)
   = mset el + image_mset prod.swap (filter_mset (\<lambda>(s, d). s \<noteq> d) (mset el))"
  by (induction el) (auto simp: both_ways_def)

lemma length_both_ways:
  "length (both_ways el) = length el + length (filter (\<lambda>(s, d). s \<noteq> d) el)"
  by (induction el) (auto simp: both_ways_def)

lemma length_bucket_both_ways:
  "length (bucket k (both_ways el))
   = count_list (map fst el) k + count_list (map snd (filter (\<lambda>(s, d). s \<noteq> d) el)) k"
  by (induction el) (auto simp: both_ways_def bucket_Cons)

lemma count_reverse_edges_csr:
  assumes "csr_invariants g" and "length out1 = num_nodes g"
  shows "count_reverse_edges g out1
         = Inr (map (\<lambda>k. out1 ! k
                         + count_list (map snd (filter (\<lambda>(s, d). s \<noteq> d) (edge_list g))) k)
                  [0 ..< num_nodes g])"
proof -
  let ?inc = "\<lambda>k out. case fetch_and_add out k of
                          Inl err \<Rightarrow> Inl err
                        | Inr (old, out') \<Rightarrow> Inr out'"
  have "count_reverse_edges g out1
        = for_each (\<lambda>(n, e) out. case edge_dest g e of
                                     Inl err \<Rightarrow> Inl err
                                   | Inr dest \<Rightarrow> if n \<noteq> dest then ?inc dest out else Inr out)
            (edge_ids g) out1"
    unfolding count_reverse_edges_def edge_ids_def all_nodes_csr [OF assms(1)]
    by (rule for_each_nested)
  also have "\<dots> = for_each (\<lambda>p out. if fst p \<noteq> snd p then ?inc (snd p) out else Inr out)
                      (edge_list g) out1"
    unfolding edge_list_edge_ids for_each_map
    using edge_ids_bounds(2) [OF assms(1)]
    by (intro for_each_cong) (auto simp: edge_dest_def at_def num_edges_def)
  also have "\<dots> = for_each (\<lambda>p. ?inc (snd p)) (filter (\<lambda>p. fst p \<noteq> snd p) (edge_list g)) out1"
    by (rule for_each_filter)
  also have "\<dots> = for_each ?inc (map snd (filter (\<lambda>(s, d). s \<noteq> d) (edge_list g))) out1"
    by (simp add: for_each_map case_prod_unfold)
  also have "\<dots> = Inr (map (\<lambda>k. out1 ! k
                         + count_list (map snd (filter (\<lambda>(s, d). s \<noteq> d) (edge_list g))) k)
                  [0 ..< length out1])"
  proof (rule count_keys)
    show "\<forall>k \<in> set (map snd (filter (\<lambda>(s, d). s \<noteq> d) (edge_list g))). k < length out1"
      using edge_ids_bounds(2) [OF assms(1)] assms
      by (auto simp: edge_list_edge_ids csr_invariants_def num_edges_def)
  qed
  finally show ?thesis by (simp add: assms(2))
qed

lemma add_edges_and_reverses_items:
  assumes "csr_invariants g"
  shows "add_edges_and_reverses g st
         = for_each (\<lambda>(k, x). place k x) (both_ways (edge_list g)) st"
proof -
  let ?pl = "\<lambda>(k, x). place k x"
  have "add_edges_and_reverses g st
        = for_each (\<lambda>(src, e) st. case edge_dest g e of
                       Inl err \<Rightarrow> Inl err
                     | Inr dest \<Rightarrow>
                         (case place src dest st of
                            Inl err \<Rightarrow> Inl err
                          | Inr st' \<Rightarrow> if dest \<noteq> src then place dest src st' else Inr st'))
            (edge_ids g) st"
    unfolding add_edges_and_reverses_def edge_ids_def all_nodes_csr [OF assms]
    by (rule for_each_nested)
  also have "\<dots> = for_each (\<lambda>p. for_each ?pl
                          (case p of (s, d) \<Rightarrow> if d \<noteq> s then [(s, d), (d, s)] else [(s, d)]))
                      (edge_list g) st"
    unfolding edge_list_edge_ids for_each_map
    using edge_ids_bounds(2) [OF assms]
    by (intro for_each_cong) (auto simp: edge_dest_def at_def num_edges_def split: sum.splits)
  also have "\<dots> = for_each ?pl (both_ways (edge_list g)) st"
    unfolding both_ways_def by (rule for_each_concat)
  finally show ?thesis .
qed

lemma symmetric_correct:
  assumes csr: "csr_invariants (topology pg)" and small: "2 * num_edges (topology pg) < 2 ^ 64"
  shows "\<exists>sym. CreateSymmetricGraph pg = Inr sym
          \<and> csr_invariants sym
          \<and> num_nodes sym = num_nodes (topology pg)
          \<and> num_edges sym = length (both_ways (edge_list (topology pg)))
          \<and> mset (edge_list sym) = mset (both_ways (edge_list (topology pg)))"
proof (cases "num_nodes (topology pg) = 0")
  case True
  then have "adj_indices (topology pg) = []" by (simp add: num_nodes_def)
  then have "num_edges (topology pg) = 0" using csr by (simp add: csr_invariants_def)
  then have "edge_list (topology pg) = []" using True by (simp add: edge_list_def)
  then show ?thesis
    using True
    by (simp add: CreateSymmetricGraph_def csr_invariants_def num_nodes_def
        num_edges_def edge_list_def both_ways_def)
next
  case False
  define g where "g = topology pg"
  define N where "N = num_nodes g"
  define el where "el = edge_list g"
  define items where "items = both_ways el"
  define caps where "caps = map (\<lambda>k. length (bucket k items)) [0 ..< N]"
  note csr' = csr [folded g_def]
  have N: "0 < N" "N < 2 ^ 32" using False csr' by (simp_all add: N_def g_def csr_invariants_def)
  have el_bounds: "s < N \<and> d < N" if "(s, d) \<in> set el" for s d
  proof -
    from that obtain e where e: "(s, e) \<in> set (edge_ids g)" "d = dests g ! e"
      by (auto simp: el_def edge_list_edge_ids)
    have "s < N" using edge_ids_bounds(1) [OF csr' e(1)] by (simp add: N_def)
    moreover have "d < N"
      using edge_ids_bounds(2) [OF csr' e(1)] csr' e(2)
      by (simp add: csr_invariants_def num_edges_def N_def)
    ultimately show ?thesis by simp
  qed
  have keys: "\<forall>it \<in> set items. fst it < N" and vals: "\<forall>it \<in> set items. snd it < N"
    using el_bounds by (auto simp: items_def both_ways_def split: if_splits)
  have lel: "length el = num_edges g"
    using map_snd_edge_ids [OF csr']
    by (metis el_def edge_list_edge_ids length_map length_upt diff_zero)
  have "length items \<le> 2 * length el"
    using length_filter_le [of "\<lambda>(s, d). s \<noteq> d" el] by (simp add: items_def length_both_ways)
  then have small': "length items < 2 ^ 64" using small lel by (simp add: g_def)
  from scatter_topology [OF N keys vals small' caps_def] obtain off out where
    run: "for_each (\<lambda>(k, x). place k x) items
            (start_offsets (partial_sum caps), replicate (length items) 0) = Inr (off, out)"
    and lout: "length out = length items"
    and csr_out: "csr_invariants \<lparr>adj_indices = partial_sum caps, dests = out\<rparr>"
    and ms: "mset (edge_list \<lparr>adj_indices = partial_sum caps, dests = out\<rparr>) = mset items"
    by blast
  define out1 where
    "out1 = fold (\<lambda>n out_indices. out_indices[n := edge_end g n - edge_begin g n])
              (all_nodes g) (replicate (num_nodes g) 0)"
  have out1: "out1 = map (\<lambda>n. edge_end g n - edge_begin g n) [0 ..< N]"
    unfolding out1_def all_nodes_csr [OF csr'] N_def [symmetric]
    by (subst degrees_fold) simp_all
  have cnt: "count_reverse_edges g out1 = Inr caps"
  proof -
    have "map (\<lambda>k. out1 ! k + count_list (map snd (filter (\<lambda>(s, d). s \<noteq> d) el)) k) [0 ..< N] = caps"
      unfolding caps_def
      by (intro map_cong)
        (simp_all add: out1 items_def length_bucket_both_ways degree_count N_def el_def)
    then show ?thesis
      using count_reverse_edges_csr [OF csr', of out1] by (simp add: out1 N_def el_def)
  qed
  have total: "partial_sum caps ! (N - 1) = length items"
  proof -
    have "partial_sum caps ! (N - 1) = sum_list (take (Suc (N - 1)) caps)"
      using N(1) by (intro partial_sum_nth) (simp add: caps_def)
    also have "\<dots> = sum_list caps" using N(1) by (simp add: caps_def)
    also have "\<dots> = length items" using sum_length_buckets [OF keys] by (simp add: caps_def)
    finally show ?thesis .
  qed
  have rev: "add_edges_and_reverses g
               (start_offsets (partial_sum caps), replicate (length items) 0) = Inr (off, out)"
    using run by (simp add: add_edges_and_reverses_items [OF csr'] items_def el_def)
  have cnt': "count_reverse_edges (topology pg)
               (fold (\<lambda>n out_indices.
                        out_indices[n := edge_end (topology pg) n - edge_begin (topology pg) n])
                  (all_nodes (topology pg)) (replicate (num_nodes (topology pg)) 0)) = Inr caps"
    using cnt by (simp add: out1_def g_def)
  have total': "partial_sum caps ! (num_nodes (topology pg) - Suc 0) = length items"
    using total by (simp add: N_def g_def)
  have rev': "add_edges_and_reverses (topology pg)
               (start_offsets (partial_sum caps), replicate (length items) 0) = Inr (off, out)"
    using rev by (simp add: g_def)
  have res: "CreateSymmetricGraph pg = Inr \<lparr>adj_indices = partial_sum caps, dests = out\<rparr>"
    using False by (simp add: CreateSymmetricGraph_def Let_def cnt' total' rev')
  show ?thesis
    using res csr_out ms lout
    by (simp add: num_nodes_def num_edges_def caps_def N_def g_def items_def el_def)
qed

text \<open>
  C1. For every property graph whose topology satisfies the CSR invariants (and whose
  doubled edge count fits 64 bits), \<open>CreateSymmetricGraph\<close> returns a topology on the
  same nodes that satisfies the CSR invariants, contains \<open>(u, v)\<close> and \<open>(v, u)\<close> for
  every edge \<open>(u, v)\<close> of the input with \<open>u \<noteq> v\<close>, contains every self-loop as often
  as the input does, and has twice the edges of the input less its self-loops: its edges
  are those of the input and the reverses of those that are no self-loops.
\<close>

theorem CreateSymmetricGraph_symmetric:
  assumes "csr_invariants (topology pg)" and "2 * num_edges (topology pg) < 2 ^ 64"
  shows "\<exists>sym. CreateSymmetricGraph pg = Inr sym
           \<and> csr_invariants sym
           \<and> num_nodes sym = num_nodes (topology pg)
           \<and> (\<forall>u v. (u, v) \<in> set (edge_list (topology pg)) \<and> u \<noteq> v \<longrightarrow>
                  (u, v) \<in> set (edge_list sym) \<and> (v, u) \<in> set (edge_list sym))
           \<and> (\<forall>u. count (mset (edge_list sym)) (u, u)
                    = count (mset (edge_list (topology pg))) (u, u))
           \<and> num_edges sym
               = 2 * num_edges (topology pg)
                 - length (filter (\<lambda>(u, v). u = v) (edge_list (topology pg)))
           \<and> mset (edge_list sym)
               = mset (edge_list (topology pg))
                 + image_mset prod.swap
                     (filter_mset (\<lambda>(u, v). u \<noteq> v) (mset (edge_list (topology pg))))"
proof -
  define el where "el = edge_list (topology pg)"
  from symmetric_correct [OF assms] obtain sym where
    res: "CreateSymmetricGraph pg = Inr sym" and csr: "csr_invariants sym"
    and nodes: "num_nodes sym = num_nodes (topology pg)"
    and ne: "num_edges sym = length (both_ways el)"
    and ms0: "mset (edge_list sym) = mset (both_ways el)"
    unfolding el_def by blast
  have ms: "mset (edge_list sym)
            = mset el + image_mset prod.swap (filter_mset (\<lambda>(u, v). u \<noteq> v) (mset el))"
    by (simp add: ms0 mset_both_ways)
  have both: "(u, v) \<in> set (edge_list sym) \<and> (v, u) \<in> set (edge_list sym)"
    if "(u, v) \<in> set el \<and> u \<noteq> v" for u v
  proof -
    have "(u, v) \<in># mset (edge_list sym)" using that by (simp add: ms)
    moreover have "(u, v) \<in># filter_mset (\<lambda>(u, v). u \<noteq> v) (mset el)" using that by simp
    then have "prod.swap (u, v) \<in># image_mset prod.swap (filter_mset (\<lambda>(u, v). u \<noteq> v) (mset el))"
      by simp
    then have "(v, u) \<in># mset (edge_list sym)" by (simp add: ms)
    ultimately show ?thesis by simp
  qed
  have loops: "count (mset (edge_list sym)) (u, u) = count (mset el) (u, u)" for u
  proof -
    have "(u, u) \<notin># image_mset prod.swap (filter_mset (\<lambda>(u, v). u \<noteq> v) (mset el))"
      by auto
    then have "count (image_mset prod.swap (filter_mset (\<lambda>(u, v). u \<noteq> v) (mset el))) (u, u) = 0"
      by (simp add: count_eq_zero_iff)
    then show ?thesis by (simp add: ms)
  qed
  have "length (filter (\<lambda>(u, v). u = v) el) + length (filter (\<lambda>(u, v). u \<noteq> v) el) = length el"
    using sum_length_filter_compl [of "\<lambda>(u, v). u = v" el] by (simp add: case_prod_unfold)
  then have count: "num_edges sym = 2 * num_edges (topology pg) - length (filter (\<lambda>(u, v). u = v) el)"
    using length_edge_list [OF assms(1)] by (simp add: ne length_both_ways el_def)
  show ?thesis
    using res csr nodes both loops count ms unfolding el_def by blast
qed

theorem CreateSymmetricGraph_symmetric_witness:
  "csr_invariants (topology four_nodes_pg)
   \<and> 2 * num_edges (topology four_nodes_pg) < 2 ^ 64
   \<and> CreateSymmetricGraph four_nodes_pg
       = Inr \<lparr>adj_indices = [2, 4, 6, 7], dests = [1, 2, 0, 2, 0, 1, 3]\<rparr>
   \<and> (\<exists>sym. CreateSymmetricGraph four_nodes_pg = Inr sym
           \<and> csr_invariants sym
           \<and> num_edges sym
               = 2 * num_edges (topology four_nodes_pg)
                 - length (filter (\<lambda>(u, v). u = v) (edge_list (topology four_nodes_pg))))"
proof -
  have small: "2 * num_edges (topology four_nodes_pg) < 2 ^ 64"
    by (simp add: four_nodes_pg_def four_nodes_def num_edges_def)
  have val: "CreateSymmetricGraph four_nodes_pg
       = Inr \<lparr>adj_indices = [2, 4, 6, 7], dests = [1, 2, 0, 2, 0, 1, 3]\<rparr>"
    by (simp add: CreateSymmetricGraph_def four_nodes_pg_def four_nodes_def num_nodes_def
        num_edges_def count_reverse_edges_def add_edges_and_reverses_def all_nodes_def
        edge_dest_def at_def fetch_and_add_def place_def put_def partial_sum_def
        start_offsets_def edge_begin_def edge_end_def upt_rec)
  show ?thesis
    using four_nodes_pg_csr small val
      CreateSymmetricGraph_symmetric [OF four_nodes_pg_csr small]
    by blast
qed

subsection \<open>Reading and writing the topology file\<close>

lemma length_le_bytes [simp]: "length (le_bytes k v) = k"
  by (induction k arbitrary: v) auto

lemma le_val_le_bytes: "v < 256 ^ k \<Longrightarrow> le_val (le_bytes k v) = v"
proof (induction k arbitrary: v)
  case 0
  then show ?case by simp
next
  case (Suc k)
  have "v div 256 < 256 ^ k" using Suc.prems by (simp add: less_mult_imp_div_less mult.commute)
  then have "le_val (le_bytes k (v div 256)) = v div 256" by (rule Suc.IH)
  moreover have "unat (of_nat (v mod 256) :: byte) = v mod 256"
    by (simp add: unat_of_nat)
  ultimately show ?case by simp
qed

lemma le_bytes_numeral:
  "le_bytes (numeral k) v = of_nat (v mod 256) # le_bytes (pred_numeral k) (v div 256)"
  by (subst numeral_eq_Suc) (rule le_bytes.simps(2))

lemma drop_concat_chunks:
  "\<forall>x \<in> set xs. length (f x) = k \<Longrightarrow> i \<le> length xs \<Longrightarrow>
   drop (k * i) (concat (map f xs)) = concat (map f (drop i xs))"
proof (induction xs arbitrary: i)
  case Nil
  then show ?case by simp
next
  case (Cons x xs)
  show ?case
  proof (cases i)
    case 0
    then show ?thesis by simp
  next
    case (Suc j)
    then show ?thesis using Cons by simp
  qed
qed

lemma chunk_at:
  assumes "\<forall>x \<in> set xs. length (f x) = k" and "i < length xs"
  shows "take k (drop (k * i) (concat (map f xs) @ rest)) = f (xs ! i)"
proof -
  have len: "length (concat (map f xs)) = k * length xs"
    using assms(1) by (induction xs) auto
  have "k * i \<le> length (concat (map f xs))" using assms(2) len by simp
  then have "drop (k * i) (concat (map f xs) @ rest) = drop (k * i) (concat (map f xs)) @ rest"
    by simp
  also have "\<dots> = concat (map f (drop i xs)) @ rest"
    using drop_concat_chunks [OF assms(1), of i] assms(2) by simp
  also have "drop i xs = xs ! i # drop (Suc i) xs"
    using assms(2) by (simp add: Cons_nth_drop_Suc)
  finally show ?thesis using assms by simp
qed

lemma fold_flag:
  "fold (\<lambda>n bad. if P n then True else bad) ns b \<longleftrightarrow> b \<or> (\<exists>n \<in> set ns. P n)"
  by (induction ns arbitrary: b) auto

lemma CheckTopology_iff:
  "CheckTopology out_indices n_nodes out_dests n_edges \<longleftrightarrow>
     (\<forall>n < n_nodes. out_indices ! n \<le> n_edges) \<and> (\<forall>e < n_edges. out_dests ! e < n_nodes)"
proof -
  have a: "(\<exists>n \<in> set [0 ..< n_nodes]. out_indices ! n > n_edges)
           \<longleftrightarrow> \<not> (\<forall>n < n_nodes. out_indices ! n \<le> n_edges)"
    by (simp add: Bex_def not_le)
  have d: "(\<exists>e \<in> set [0 ..< n_edges]. out_dests ! e \<ge> n_nodes)
           \<longleftrightarrow> \<not> (\<forall>e < n_edges. out_dests ! e < n_nodes)"
    by (simp add: Bex_def not_less)
  show ?thesis
    unfolding CheckTopology_def Let_def fold_flag a d by simp
qed

lemma bad_adj_file_bytes:
  "bad_adj_file = [1,0,0,0,0,0,0,0, 0,0,0,0,0,0,0,0, 1,0,0,0,0,0,0,0, 0,0,0,0,0,0,0,0,
                   5,0,0,0,0,0,0,0]"
  by (simp add: bad_adj_file_def le_bytes_numeral)

lemma MapTopology_accepts:
  assumes "MapTopology debug buf = Inr t"
  shows "u64_at buf 0 = Inr 1"
    and "u64_at buf 2 = Inr (num_nodes t)"
    and "u64_at buf 3 = Inr (num_edges t)"
    and "GetGraphSize (num_nodes t) (num_edges t) \<le> length buf"
    and "debug \<Longrightarrow> CheckTopology (adj_indices t) (num_nodes t) (dests t) (num_edges t)"
proof -
  from assms obtain n e a d where
    v: "u64_at buf 0 = Inr 1" and n: "u64_at buf 2 = Inr n" and e: "u64_at buf 3 = Inr e"
    and sz: "\<not> length buf < GetGraphSize n e"
    and a: "u64s_at buf 4 n = Inr a" and d: "u32s_at buf (8 * (4 + n)) e = Inr d"
    and chk: "\<not> (debug \<and> \<not> CheckTopology a n d e)"
    and t: "t = \<lparr>adj_indices = a, dests = d\<rparr>"
    unfolding MapTopology_def by (auto split: if_splits sum.splits)
  have la: "length a = n" using a by (auto simp: u64s_at_def split: if_splits)
  have ld: "length d = e" using d by (auto simp: u32s_at_def split: if_splits)
  show "u64_at buf 0 = Inr 1" by (rule v)
  show "u64_at buf 2 = Inr (num_nodes t)" using n la t by (simp add: num_nodes_def)
  show "u64_at buf 3 = Inr (num_edges t)" using e ld t by (simp add: num_edges_def)
  show "GetGraphSize (num_nodes t) (num_edges t) \<le> length buf"
    using sz la ld t by (simp add: num_nodes_def num_edges_def)
  show "CheckTopology (adj_indices t) (num_nodes t) (dests t) (num_edges t)" if debug
    using chk that la ld t by (simp add: num_nodes_def num_edges_def)
qed

text \<open>
  C9, as stated: every buffer with an adjacency index above the number of edges or a
  destination that is no node is rejected. In a build without debug assertions the file
  of version 1 with one node, no edge and the adjacency index 5 is accepted, and the
  topology it yields has the adjacency index 5 above its 0 edges.
\<close>

theorem MapTopology_accepts_bad_adjacency:
  "MapTopology False bad_adj_file = Inr bad_adj_topology
   \<and> adj_indices bad_adj_topology ! 0 > num_edges bad_adj_topology"
  by (simp add: MapTopology_def bad_adj_file_bytes bad_adj_topology_def
      u64_at_def u64s_at_def u32s_at_def GetGraphSize_def CheckTopology_def num_nodes_def
      num_edges_def)

text \<open>
  C9, amended. A buffer that \<open>MapTopology\<close> accepts has version 1 and at least the
  size that its header declares (computed in 64-bit arithmetic), and, in a build with
  debug assertions, every adjacency index at most the number of edges and every
  destination below the number of nodes. A buffer of at least 32 bytes with another
  version, and a buffer shorter than the declared size, yield \<open>InvalidArgument\<close>. A
  buffer with a bad adjacency index or destination that a build without debug assertions
  accepts is a fatal assertion failure in a build with them.
\<close>

theorem MapTopology_validation:
  "(MapTopology debug buf = Inr t \<longrightarrow>
      u64_at buf 0 = Inr 1
      \<and> GetGraphSize (num_nodes t) (num_edges t) \<le> length buf
      \<and> (debug \<longrightarrow> (\<forall>n < num_nodes t. adj_indices t ! n \<le> num_edges t)
                    \<and> (\<forall>e < num_edges t. dests t ! e < num_nodes t)))
   \<and> (32 \<le> length buf1 \<and> u64_at buf1 0 \<noteq> Inr 1 \<longrightarrow>
        MapTopology debug1 buf1 = Inl InvalidArgument)
   \<and> (u64_at buf2 2 = Inr n2 \<and> u64_at buf2 3 = Inr e2 \<and> length buf2 < GetGraphSize n2 e2 \<longrightarrow>
        MapTopology debug2 buf2 = Inl InvalidArgument)
   \<and> (MapTopology False buf3 = Inr t3
        \<and> \<not> ((\<forall>n < num_nodes t3. adj_indices t3 ! n \<le> num_edges t3)
              \<and> (\<forall>e < num_edges t3. dests t3 ! e < num_nodes t3)) \<longrightarrow>
        MapTopology True buf3 = Inl FatalAssertion)"
proof (intro conjI impI)
  assume acc: "MapTopology debug buf = Inr t"
  show "u64_at buf 0 = Inr 1" using MapTopology_accepts(1) [OF acc] .
  show "GetGraphSize (num_nodes t) (num_edges t) \<le> length buf"
    using MapTopology_accepts(4) [OF acc] .
  assume debug
  then have "CheckTopology (adj_indices t) (num_nodes t) (dests t) (num_edges t)"
    using MapTopology_accepts(5) [OF acc] by simp
  then show "\<forall>n < num_nodes t. adj_indices t ! n \<le> num_edges t"
    and "\<forall>e < num_edges t. dests t ! e < num_nodes t"
    by (simp_all add: CheckTopology_iff)
next
  assume h: "32 \<le> length buf1 \<and> u64_at buf1 0 \<noteq> Inr 1"
  then obtain v where v: "u64_at buf1 0 = Inr v" "v \<noteq> 1"
    by (auto simp: u64_at_def)
  show "MapTopology debug1 buf1 = Inl InvalidArgument"
    using h v by (simp add: MapTopology_def)
next
  assume h: "u64_at buf2 2 = Inr n2 \<and> u64_at buf2 3 = Inr e2 \<and> length buf2 < GetGraphSize n2 e2"
  then have len: "32 \<le> length buf2" by (auto simp: u64_at_def split: if_splits)
  then obtain v where v: "u64_at buf2 0 = Inr v" by (auto simp: u64_at_def)
  show "MapTopology debug2 buf2 = Inl InvalidArgument"
    using h v len by (simp add: MapTopology_def)
next
  assume h: "MapTopology False buf3 = Inr t3
        \<and> \<not> ((\<forall>n < num_nodes t3. adj_indices t3 ! n \<le> num_edges t3)
              \<and> (\<forall>e < num_edges t3. dests t3 ! e < num_nodes t3))"
  then have bad: "\<not> CheckTopology (adj_indices t3) (num_nodes t3) (dests t3) (num_edges t3)"
    by (simp add: CheckTopology_iff)
  from h obtain n e a d where
    v: "u64_at buf3 0 = Inr 1" and n: "u64_at buf3 2 = Inr n" and e: "u64_at buf3 3 = Inr e"
    and sz: "\<not> length buf3 < GetGraphSize n e" and l4: "\<not> length buf3 < 4"
    and a: "u64s_at buf3 4 n = Inr a" and d: "u32s_at buf3 (8 * (4 + n)) e = Inr d"
    and t: "t3 = \<lparr>adj_indices = a, dests = d\<rparr>"
    unfolding MapTopology_def by (auto split: if_splits sum.splits)
  have la: "length a = n" using a by (auto simp: u64s_at_def split: if_splits)
  have ld: "length d = e" using d by (auto simp: u32s_at_def split: if_splits)
  have "\<not> CheckTopology a n d e" using bad t la ld by (simp add: num_nodes_def num_edges_def)
  then show "MapTopology True buf3 = Inl FatalAssertion"
    using v n e sz l4 a d by (simp add: MapTopology_def)
qed

lemma one_node_file_bytes:
  "one_node_file = [1,0,0,0,0,0,0,0, 0,0,0,0,0,0,0,0, 1,0,0,0,0,0,0,0, 0,0,0,0,0,0,0,0,
                    0,0,0,0,0,0,0,0]"
  by (simp add: one_node_file_def le_bytes_numeral)

lemma bad_version_file_bytes:
  "bad_version_file = [2,0,0,0,0,0,0,0, 0,0,0,0,0,0,0,0, 0,0,0,0,0,0,0,0, 0,0,0,0,0,0,0,0]"
  by (simp add: bad_version_file_def le_bytes_numeral)

lemma short_file_bytes:
  "short_file = [1,0,0,0,0,0,0,0, 0,0,0,0,0,0,0,0, 1,0,0,0,0,0,0,0, 0,0,0,0,0,0,0,0]"
  by (simp add: short_file_def le_bytes_numeral)

theorem MapTopology_validation_witness:
  "MapTopology True one_node_file = Inr \<lparr>adj_indices = [0], dests = []\<rparr>
   \<and> (32 \<le> length bad_version_file \<and> u64_at bad_version_file 0 \<noteq> Inr 1)
   \<and> MapTopology True bad_version_file = Inl InvalidArgument
   \<and> (u64_at short_file 2 = Inr 1 \<and> u64_at short_file 3 = Inr 0
        \<and> length short_file < GetGraphSize 1 0)
   \<and> MapTopology False short_file = Inl InvalidArgument
   \<and> MapTopology False bad_adj_file = Inr bad_adj_topology
   \<and> MapTopology True bad_adj_file = Inl FatalAssertion"
proof -
  have h0: "MapTopology True one_node_file = Inr \<lparr>adj_indices = [0], dests = []\<rparr>"
    by (simp add: MapTopology_def one_node_file_bytes u64_at_def u64s_at_def u32s_at_def
        GetGraphSize_def CheckTopology_def)
  have h1: "32 \<le> length bad_version_file \<and> u64_at bad_version_file 0 \<noteq> Inr 1"
    by (simp add: bad_version_file_bytes u64_at_def)
  have h2: "u64_at short_file 2 = Inr 1 \<and> u64_at short_file 3 = Inr 0
        \<and> length short_file < GetGraphSize 1 0"
    by (simp add: short_file_bytes u64_at_def GetGraphSize_def)
  have h3: "MapTopology False bad_adj_file = Inr bad_adj_topology
        \<and> \<not> ((\<forall>n < num_nodes bad_adj_topology.
                 adj_indices bad_adj_topology ! n \<le> num_edges bad_adj_topology)
              \<and> (\<forall>e < num_edges bad_adj_topology.
                    dests bad_adj_topology ! e < num_nodes bad_adj_topology))"
    by (simp add: MapTopology_def bad_adj_file_bytes bad_adj_topology_def
      u64_at_def u64s_at_def u32s_at_def GetGraphSize_def CheckTopology_def num_nodes_def
      num_edges_def)
  show ?thesis
    using h0 h1 h2 h3
      MapTopology_validation [of True one_node_file "\<lparr>adj_indices = [0], dests = []\<rparr>"
        bad_version_file True short_file 1 0 False bad_adj_file bad_adj_topology]
    by blast
qed

lemma WriteTopology_layout:
  "WriteTopology g
   = concat (map (le_bytes 8) ([1, 0, num_nodes g, num_edges g] @ adj_indices g))
     @ concat (map (le_bytes 4) (dests g))"
  by (simp add: WriteTopology_def Let_def num_nodes_def num_edges_def)

lemma length_concat_le_bytes [simp]: "length (concat (map (le_bytes k) xs)) = k * length xs"
  by (induction xs) auto

lemma u64_at_chunks:
  assumes "i < length xs" and "xs ! i < 2 ^ 64"
  shows "u64_at (concat (map (le_bytes 8) xs) @ rest) i = Inr (xs ! i)"
proof -
  have "take 8 (drop (8 * i) (concat (map (le_bytes 8) xs) @ rest)) = le_bytes 8 (xs ! i)"
    using assms(1) by (intro chunk_at) simp_all
  moreover have "le_val (le_bytes 8 (xs ! i)) = xs ! i"
    using assms(2) by (intro le_val_le_bytes) simp
  moreover have "8 * i + 8 \<le> length (concat (map (le_bytes 8) xs) @ rest)"
    using assms(1) by simp
  ultimately show ?thesis by (simp add: u64_at_def)
qed

text \<open>
  C4. For every topology satisfying the CSR invariants, \<open>MapTopology\<close>, with or without
  debug assertions, succeeds on the bytes that \<open>WriteTopology\<close> produces, and the
  topology it yields has the adjacency indices and destinations of the original, so
  that \<open>Equals\<close> against the original is true.
\<close>

theorem WriteTopology_MapTopology_roundtrip:
  assumes "csr_invariants g"
  shows "MapTopology debug (WriteTopology g) = Inr \<lparr>adj_indices = adj_indices g, dests = dests g\<rparr>
         \<and> Equals \<lparr>adj_indices = adj_indices g, dests = dests g\<rparr> g"
proof -
  define N where "N = num_nodes g"
  define E where "E = num_edges g"
  define words where "words = [1, 0, N, E] @ adj_indices g"
  define D where "D = concat (map (le_bytes 4) (dests g))"
  define buf where "buf = WriteTopology g"
  have buf: "buf = concat (map (le_bytes 8) words) @ D"
    by (simp add: buf_def WriteTopology_layout words_def D_def N_def E_def)
  have N32: "N < 2 ^ 32" and E64: "E < 2 ^ 64"
    using assms by (simp_all add: csr_invariants_def N_def E_def)
  have N64: "N < 2 ^ 64" using N32 by simp
  have lenN: "length (adj_indices g) = N" by (simp add: N_def num_nodes_def)
  have lenE: "length (dests g) = E" by (simp add: E_def num_edges_def)
  have lw: "length words = 4 + N" by (simp add: words_def lenN)
  have lbuf: "length buf = 8 * (4 + N) + 4 * E" by (simp add: buf D_def lw lenE)
  have adj64: "adj_indices g ! n < 2 ^ 64" if "n < N" for n
    using csr_adj_le_edges [OF assms, of n] that E64 by (simp add: N_def E_def)
  have d32: "dests g ! e < 2 ^ 32" if "e < E" for e
    using csr_dest_less_nodes [OF assms, of e] that N32 by (simp add: N_def E_def)
  have r0: "u64_at buf 0 = Inr 1"
    using u64_at_chunks [of 0 words D] by (simp add: buf lw) (simp add: words_def)
  have r2: "u64_at buf 2 = Inr N"
    using u64_at_chunks [of 2 words D] N64 by (simp add: buf lw) (simp add: words_def)
  have r3: "u64_at buf 3 = Inr E"
    using u64_at_chunks [of 3 words D] E64 by (simp add: buf lw) (simp add: words_def)
  have sz: "\<not> length buf < GetGraphSize N E"
  proof -
    have "GetGraphSize N E \<le> (4 + N) * 8 + E * 4" by (simp add: GetGraphSize_def)
    then show ?thesis by (simp add: lbuf)
  qed
  have ra: "u64s_at buf 4 N = Inr (adj_indices g)"
  proof (cases "N = 0")
    case True
    then show ?thesis using lenN by (simp add: u64s_at_def)
  next
    case False
    have "le_val (take 8 (drop (8 * (4 + i)) buf)) = adj_indices g ! i" if "i < N" for i
    proof -
      have "u64_at buf (4 + i) = Inr (words ! (4 + i))"
        unfolding buf using that adj64 [OF that]
        by (intro u64_at_chunks) (simp_all add: lw words_def lenN)
      moreover have "8 * (4 + i) + 8 \<le> length buf" using that by (simp add: lbuf)
      ultimately show ?thesis by (simp add: u64_at_def words_def)
    qed
    then have "map (\<lambda>i. le_val (take 8 (drop (8 * (4 + i)) buf))) [0 ..< N] = adj_indices g"
      by (intro nth_equalityI) (simp_all add: lenN)
    then show ?thesis using False by (simp add: u64s_at_def lbuf)
  qed
  have rd: "u32s_at buf (8 * (4 + N)) E = Inr (dests g)"
  proof (cases "E = 0")
    case True
    then show ?thesis using lenE by (simp add: u32s_at_def)
  next
    case False
    have "le_val (take 4 (drop (8 * (4 + N) + 4 * i) buf)) = dests g ! i" if "i < E" for i
    proof -
      have "drop (8 * (4 + N) + 4 * i) buf = drop (4 * i) D"
        by (simp add: buf lw)
      moreover have "take 4 (drop (4 * i) (concat (map (le_bytes 4) (dests g)) @ [])) = le_bytes 4 (dests g ! i)"
        using that by (intro chunk_at) (simp_all add: lenE)
      moreover have "le_val (le_bytes 4 (dests g ! i)) = dests g ! i"
        using d32 [OF that] by (intro le_val_le_bytes) simp
      ultimately show ?thesis by (simp add: D_def)
    qed
    then have "map (\<lambda>i. le_val (take 4 (drop (8 * (4 + N) + 4 * i) buf))) [0 ..< E] = dests g"
      by (intro nth_equalityI) (simp_all add: lenE)
    then show ?thesis using False by (simp add: u32s_at_def lbuf)
  qed
  have chk: "CheckTopology (adj_indices g) N (dests g) E"
    unfolding CheckTopology_iff
    using csr_adj_le_edges [OF assms] csr_dest_less_nodes [OF assms] by (simp add: N_def E_def)
  have l4: "\<not> length buf < 4" by (simp add: lbuf)
  have "MapTopology debug buf = Inr \<lparr>adj_indices = adj_indices g, dests = dests g\<rparr>"
    using l4 r0 r2 r3 sz ra rd chk by (simp add: MapTopology_def)
  moreover have "Equals \<lparr>adj_indices = adj_indices g, dests = dests g\<rparr> g"
    by (simp add: Equals_def num_nodes_def num_edges_def)
  ultimately show ?thesis by (simp add: buf_def)
qed

theorem WriteTopology_MapTopology_roundtrip_witness:
  "csr_invariants four_nodes
   \<and> MapTopology True (WriteTopology four_nodes) = Inr four_nodes
   \<and> Equals four_nodes four_nodes"
  using four_nodes_csr WriteTopology_MapTopology_roundtrip [OF four_nodes_csr, of True]
  by (simp add: four_nodes_def)

subsection \<open>Transposition\<close>

lemma reverse_edges_items:
  assumes "csr_invariants g"
  shows "reverse_edges g st
         = for_each (\<lambda>(k, x). place k x) (map (\<lambda>(n, e). (dests g ! e, n)) (edge_ids g)) st"
proof -
  have "reverse_edges g st
        = for_each (\<lambda>(src, e) st. case edge_dest g e of
                                     Inl err \<Rightarrow> Inl err
                                   | Inr dest \<Rightarrow> place dest src st) (edge_ids g) st"
    unfolding reverse_edges_def edge_ids_def all_nodes_csr [OF assms]
    by (rule for_each_nested)
  also have "\<dots> = for_each (\<lambda>(src, e). place (dests g ! e) src) (edge_ids g) st"
    using edge_ids_bounds(2) [OF assms]
    by (intro for_each_cong) (auto simp: edge_dest_def at_def num_edges_def)
  finally show ?thesis by (simp add: for_each_map case_prod_unfold)
qed

lemma count_in_edges_csr:
  assumes "csr_invariants g"
  shows "count_in_edges g (replicate (num_nodes g) 0)
         = Inr (map (\<lambda>k. count_list (dests g) k) [0 ..< num_nodes g])"
proof -
  have "count_in_edges g (replicate (num_nodes g) 0)
        = for_each (\<lambda>k out. case fetch_and_add out k of
                               Inl err \<Rightarrow> Inl err
                             | Inr (old, out') \<Rightarrow> Inr out')
            (map (\<lambda>e. dests g ! e) [0 ..< num_edges g]) (replicate (num_nodes g) 0)"
    unfolding count_in_edges_def all_edges_def for_each_map
    by (intro for_each_cong) (simp add: edge_dest_def at_def num_edges_def)
  also have "map (\<lambda>e. dests g ! e) [0 ..< num_edges g] = dests g"
    by (simp add: num_edges_def map_nth)
  also have "for_each (\<lambda>k out. case fetch_and_add out k of
                               Inl err \<Rightarrow> Inl err
                             | Inr (old, out') \<Rightarrow> Inr out')
            (dests g) (replicate (num_nodes g) 0)
        = Inr (map (\<lambda>k. replicate (num_nodes g) 0 ! k + count_list (dests g) k)
                 [0 ..< length (replicate (num_nodes g) (0 :: nat))])"
    using assms by (intro count_keys) (simp add: csr_invariants_def)
  also have "map (\<lambda>k. replicate (num_nodes g) 0 ! k + count_list (dests g) k)
                 [0 ..< length (replicate (num_nodes g) (0 :: nat))]
             = map (\<lambda>k. count_list (dests g) k) [0 ..< num_nodes g]"
    by (intro map_cong) simp_all
  finally show ?thesis .
qed

lemma transpose_correct:
  assumes "csr_invariants g"
  shows "\<exists>t. CreateTransposeGraphTopology g = Inr t
          \<and> csr_invariants t
          \<and> num_nodes t = num_nodes g
          \<and> num_edges t = num_edges g
          \<and> mset (edge_list t) = image_mset prod.swap (mset (edge_list g))"
proof (cases "num_nodes g = 0")
  case True
  then have "adj_indices g = []" by (simp add: num_nodes_def)
  then have "num_edges g = 0" using assms by (simp add: csr_invariants_def)
  then have "edge_list g = []" using True by (simp add: edge_list_def)
  then show ?thesis
    using True \<open>num_edges g = 0\<close>
    by (simp add: CreateTransposeGraphTopology_def csr_invariants_def num_nodes_def
        num_edges_def edge_list_def)
next
  case False
  define N where "N = num_nodes g"
  define items where "items = map (\<lambda>(n, e). (dests g ! e, n)) (edge_ids g)"
  define caps where "caps = map (\<lambda>k. count_list (dests g) k) [0 ..< N]"
  have N: "0 < N" "N < 2 ^ 32" using False assms by (simp_all add: N_def csr_invariants_def)
  have litems: "length items = num_edges g"
    using map_snd_edge_ids [OF assms] by (metis items_def length_map length_upt diff_zero)
  have fst_items: "map fst items = dests g"
    using map_dest_edge_ids [OF assms] by (simp add: items_def comp_def case_prod_unfold)
  have keys: "\<forall>it \<in> set items. fst it < N"
  proof
    fix it assume "it \<in> set items"
    then have "fst it \<in> set (map fst items)" by simp
    then show "fst it < N" using assms by (simp add: fst_items csr_invariants_def N_def)
  qed
  have vals: "\<forall>it \<in> set items. snd it < N"
    using edge_ids_bounds(1) [OF assms] by (auto simp: items_def N_def)
  have small: "length items < 2 ^ 64" using assms by (simp add: litems csr_invariants_def)
  have caps: "caps = map (\<lambda>k. length (bucket k items)) [0 ..< N]"
    by (simp add: caps_def length_bucket_count fst_items)
  from scatter_topology [OF N keys vals small caps] obtain off out where
    run: "for_each (\<lambda>(k, x). place k x) items
            (start_offsets (partial_sum caps), replicate (length items) 0) = Inr (off, out)"
    and lout: "length out = length items"
    and csr: "csr_invariants \<lparr>adj_indices = partial_sum caps, dests = out\<rparr>"
    and ms: "mset (edge_list \<lparr>adj_indices = partial_sum caps, dests = out\<rparr>) = mset items"
    by blast
  have cnt: "count_in_edges g (replicate (num_nodes g) 0) = Inr caps"
    using count_in_edges_csr [OF assms] by (simp add: caps_def N_def)
  have rev: "reverse_edges g (start_offsets (partial_sum caps), replicate (num_edges g) 0)
             = Inr (off, out)"
    using run by (simp add: reverse_edges_items [OF assms] items_def [symmetric] litems)
  have res: "CreateTransposeGraphTopology g = Inr \<lparr>adj_indices = partial_sum caps, dests = out\<rparr>"
    using False by (simp add: CreateTransposeGraphTopology_def cnt rev)
  have "items = map prod.swap (edge_list g)"
    by (simp add: items_def edge_list_edge_ids comp_def case_prod_unfold)
  then have "mset items = image_mset prod.swap (mset (edge_list g))" by simp
  then show ?thesis
    using res csr ms lout litems by (simp add: num_nodes_def num_edges_def caps_def N_def)
qed

text \<open>
  C5. For every topology satisfying the CSR invariants, \<open>CreateTransposeGraphTopology\<close>
  succeeds on it and on its result, and the second result has the nodes of the original
  and, for every node, the same multiset of destinations of the out-edges as the
  original.
\<close>

theorem transpose_involutive:
  assumes "csr_invariants g"
  shows "\<exists>t tt. CreateTransposeGraphTopology g = Inr t
           \<and> CreateTransposeGraphTopology t = Inr tt
           \<and> num_nodes tt = num_nodes g
           \<and> (\<forall>n < num_nodes g. mset (out_neighbors tt n) = mset (out_neighbors g n))"
proof -
  from transpose_correct [OF assms] obtain t where
    t: "CreateTransposeGraphTopology g = Inr t" "csr_invariants t" "num_nodes t = num_nodes g"
    and mt: "mset (edge_list t) = image_mset prod.swap (mset (edge_list g))"
    by blast
  from transpose_correct [OF t(2)] obtain tt where
    tt: "CreateTransposeGraphTopology t = Inr tt" "num_nodes tt = num_nodes t"
    and mtt: "mset (edge_list tt) = image_mset prod.swap (mset (edge_list t))"
    by blast
  have same: "mset (edge_list tt) = mset (edge_list g)"
    by (simp add: mtt mt multiset.map_comp comp_def)
  have "mset (out_neighbors tt n) = mset (out_neighbors g n)" if "n < num_nodes g" for n
    using that tt(2) t(3) by (simp add: out_neighbors_bucket mset_bucket same)
  then show ?thesis using t(1,3) tt by auto
qed

theorem transpose_involutive_witness:
  "csr_invariants four_nodes
   \<and> CreateTransposeGraphTopology four_nodes
       = Inr \<lparr>adj_indices = [0, 1, 3, 4], dests = [0, 0, 1, 3]\<rparr>
   \<and> (\<exists>t tt. CreateTransposeGraphTopology four_nodes = Inr t
           \<and> CreateTransposeGraphTopology t = Inr tt
           \<and> num_nodes tt = num_nodes four_nodes
           \<and> (\<forall>n < num_nodes four_nodes.
                 mset (out_neighbors tt n) = mset (out_neighbors four_nodes n)))"
proof -
  have "CreateTransposeGraphTopology four_nodes
        = Inr \<lparr>adj_indices = [0, 1, 3, 4], dests = [0, 0, 1, 3]\<rparr>"
    by (simp add: CreateTransposeGraphTopology_def four_nodes_def num_nodes_def num_edges_def
        count_in_edges_def reverse_edges_def all_edges_def all_nodes_def edge_dest_def at_def
        fetch_and_add_def place_def put_def partial_sum_def start_offsets_def edge_begin_def
        edge_end_def upt_rec)
  then show ?thesis
    using four_nodes_csr transpose_involutive [OF four_nodes_csr] by blast
qed

subsection \<open>Sorting the nodes by degree\<close>

lemma degrees_and_mapping_Suc:
  "degrees_and_mapping (Suc k) dn st =
     (case degrees_and_mapping k dn st of
        Inl err \<Rightarrow> Inl err
      | Inr (new_prefix_sum, old_to_new_mapping) \<Rightarrow>
          (case at dn k of
             Inl err \<Rightarrow> Inl err
           | Inr pair \<Rightarrow>
               (case put new_prefix_sum k (fst pair) of
                  Inl err \<Rightarrow> Inl err
                | Inr new_prefix_sum' \<Rightarrow>
                    (case put old_to_new_mapping (snd pair) k of
                       Inl err \<Rightarrow> Inl err
                     | Inr old_to_new_mapping' \<Rightarrow> Inr (new_prefix_sum', old_to_new_mapping')))))"
  by (simp add: degrees_and_mapping_def for_each_append split: sum.splits prod.splits)

lemma degrees_and_mapping_prefix:
  fixes dn :: "(nat \<times> nat) list"
  assumes len: "length dn = N" and bound: "\<forall>p \<in> set dn. snd p < N"
    and dist: "distinct (map snd dn)" and k: "k \<le> N"
  shows "\<exists>o2n. degrees_and_mapping k dn (replicate N 0, replicate N 0)
                = Inr (map fst (take k dn) @ replicate (N - k) 0, o2n)
         \<and> length o2n = N \<and> (\<forall>i < k. o2n ! (snd (dn ! i)) = i)"
  using k
proof (induction k)
  case 0
  then show ?case by (simp add: degrees_and_mapping_def)
next
  case (Suc k)
  then obtain o2n where
    run: "degrees_and_mapping k dn (replicate N 0, replicate N 0)
          = Inr (map fst (take k dn) @ replicate (N - k) 0, o2n)"
    and lo: "length o2n = N" and inv: "\<forall>i < k. o2n ! (snd (dn ! i)) = i"
    by auto
  have kN: "k < N" using Suc.prems by simp
  have snd_k: "snd (dn ! k) < N" using bound kN len by simp
  let ?nps = "map fst (take k dn) @ replicate (N - k) 0"
  have nps': "?nps[k := fst (dn ! k)] = map fst (take (Suc k) dn) @ replicate (N - Suc k) 0"
  proof -
    have r: "replicate (N - k) (0 :: nat) = 0 # replicate (N - Suc k) 0"
      using kN by (metis Suc_diff_Suc replicate_Suc)
    have "?nps[k := fst (dn ! k)] = map fst (take k dn) @ (replicate (N - k) 0)[0 := fst (dn ! k)]"
      using kN len by (simp add: list_update_append)
    also have "(replicate (N - k) 0)[0 := fst (dn ! k)] = fst (dn ! k) # replicate (N - Suc k) 0"
      unfolding r by simp
    finally show ?thesis
      using kN len by (simp add: take_Suc_conv_app_nth)
  qed
  let ?o2n = "o2n[snd (dn ! k) := k]"
  have other: "snd (dn ! i) \<noteq> snd (dn ! k)" if "i < k" for i
    using dist that kN len by (simp add: distinct_conv_nth)
  have inv': "\<forall>i < Suc k. ?o2n ! (snd (dn ! i)) = i"
  proof (intro allI impI)
    fix i assume "i < Suc k"
    then consider "i = k" | "i < k" by linarith
    then show "?o2n ! (snd (dn ! i)) = i"
    proof cases
      case 1
      then show ?thesis using snd_k lo by simp
    next
      case 2
      then show ?thesis using other [OF 2] inv by simp
    qed
  qed
  have "degrees_and_mapping (Suc k) dn (replicate N 0, replicate N 0)
        = Inr (?nps[k := fst (dn ! k)], ?o2n)"
    unfolding degrees_and_mapping_Suc run
    using kN len lo snd_k by (simp add: at_def put_def)
  then show ?case using nps' inv' lo by auto
qed

lemma degrees_and_mapping_ok:
  fixes dn :: "(nat \<times> nat) list"
  assumes len: "length dn = N" and bound: "\<forall>p \<in> set dn. snd p < N"
    and dist: "distinct (map snd dn)"
  shows "\<exists>o2n. degrees_and_mapping N dn (replicate N 0, replicate N 0) = Inr (map fst dn, o2n)
           \<and> length o2n = N \<and> (\<forall>i < N. o2n ! (snd (dn ! i)) = i)"
  using degrees_and_mapping_prefix [OF assms, of N] len by simp

lemma reindex_run:
  assumes csr: "csr_invariants g" and old: "old < num_nodes g"
    and lo: "length o2n = num_nodes g"
    and room: "start + degree g old \<le> length arr"
  shows "\<exists>arr'. for_each (reindex_edge g o2n) [edge_begin g old ..< edge_end g old] (start, arr)
                 = Inr (start + degree g old, arr')
           \<and> length arr' = length arr
           \<and> (\<forall>j < degree g old. arr' ! (start + j) = o2n ! (dests g ! (edge_begin g old + j)))
           \<and> (\<forall>p. p < start \<or> start + degree g old \<le> p \<longrightarrow> arr' ! p = arr ! p)"
proof -
  let ?es = "[edge_begin g old ..< edge_end g old]"
  let ?v = "\<lambda>e. o2n ! (dests g ! e)"
  have len: "length ?es = degree g old" by (simp add: degree_def)
  have in_range: "e < num_edges g" if "e \<in> set ?es" for e
  proof -
    have "(old, e) \<in> set (edge_ids g)" using that old by (simp add: in_edge_ids)
    then show ?thesis by (rule edge_ids_bounds(2) [OF csr])
  qed
  have body: "reindex_edge g o2n e st
              = (case st of (idx, arr) \<Rightarrow> case put arr idx (?v e) of
                                            Inl err \<Rightarrow> Inl err
                                          | Inr arr' \<Rightarrow> Inr (idx + 1, arr'))"
    if "e \<in> set ?es" for e st
  proof -
    have e: "e < length (dests g)" using in_range [OF that] by (simp add: num_edges_def)
    then have "dests g ! e < length o2n"
      using csr lo by (simp add: csr_invariants_def)
    then show ?thesis using e by (simp add: reindex_edge_def edge_dest_def at_def)
  qed
  have "for_each (reindex_edge g o2n) ?es (start, arr)
        = for_each (\<lambda>e (idx, arr). case put arr idx (?v e) of
                                      Inl err \<Rightarrow> Inl err
                                    | Inr arr' \<Rightarrow> Inr (idx + 1, arr')) ?es (start, arr)"
    by (intro for_each_cong) (simp add: body)
  moreover have "start + length ?es \<le> length arr" using room len by simp
  from write_run [OF this, of ?v] obtain arr' where
    "for_each (\<lambda>e (idx, arr). case put arr idx (?v e) of
                                      Inl err \<Rightarrow> Inl err
                                    | Inr arr' \<Rightarrow> Inr (idx + 1, arr')) ?es (start, arr)
     = Inr (start + length ?es, arr')"
    and "length arr' = length arr"
    and "\<forall>j < length ?es. arr' ! (start + j) = ?v (?es ! j)"
    and "\<forall>p. p < start \<or> start + length ?es \<le> p \<longrightarrow> arr' ! p = arr ! p"
    by blast
  ultimately show ?thesis
    unfolding len by (intro exI [of _ arr']) (simp add: degree_def)
qed

lemma renaming_facts:
  assumes "renaming g perm o2n"
  shows "length perm = num_nodes g"
    and "length o2n = num_nodes g"
    and "\<And>k. k < num_nodes g \<Longrightarrow> perm ! k < num_nodes g"
    and "\<And>k. k < num_nodes g \<Longrightarrow> o2n ! (perm ! k) = k"
    and "\<And>old. old < num_nodes g \<Longrightarrow> o2n ! old < num_nodes g \<and> perm ! (o2n ! old) = old"
proof -
  have ms: "mset perm = mset [0 ..< num_nodes g]" using assms by (simp add: renaming_def)
  show len: "length perm = num_nodes g" using ms by (metis size_mset length_upt diff_zero)
  show "length o2n = num_nodes g" using assms by (simp add: renaming_def)
  have set: "set perm = {0 ..< num_nodes g}" using ms by (metis set_mset_mset set_upt)
  show lt: "perm ! k < num_nodes g" if "k < num_nodes g" for k
    using set len that by (metis atLeastLessThan_iff nth_mem)
  show inv: "o2n ! (perm ! k) = k" if "k < num_nodes g" for k
    using assms that by (simp add: renaming_def list_all_iff)
  show "o2n ! old < num_nodes g \<and> perm ! (o2n ! old) = old" if "old < num_nodes g" for old
  proof -
    have "old \<in> set perm" using set that by simp
    then obtain k where "k < length perm" "perm ! k = old" by (auto simp: in_set_conv_nth)
    then show ?thesis using inv [of k] len by auto
  qed
qed

lemma renaming_sum_caps:
  assumes csr: "csr_invariants g" and ren: "renaming g perm o2n"
  shows "sum_list (map (\<lambda>k. degree g (perm ! k)) [0 ..< num_nodes g]) = num_edges g"
proof -
  have "map (\<lambda>k. degree g (perm ! k)) [0 ..< num_nodes g] = map (degree g) perm"
    using renaming_facts(1) [OF ren] by (intro nth_equalityI) simp_all
  moreover have "sum_list (map (degree g) perm) = sum_list (map (degree g) [0 ..< num_nodes g])"
    using ren by (intro sum_list_perm) (simp add: renaming_def)
  ultimately show ?thesis using sum_degrees [OF csr] by simp
qed

lemma reindex_node_ok:
  assumes csr: "csr_invariants g" and ren: "renaming g perm o2n"
    and caps: "caps = map (\<lambda>k. degree g (perm ! k)) [0 ..< num_nodes g]"
    and old: "old < num_nodes g" and larr: "length arr = num_edges g"
  shows "\<exists>arr'. reindex_node debug g o2n (partial_sum caps) old arr = Inr arr'
           \<and> length arr' = num_edges g
           \<and> (\<forall>j < degree g old.
                 arr' ! (sum_list (take (o2n ! old) caps) + j)
                 = o2n ! (dests g ! (edge_begin g old + j)))
           \<and> (\<forall>p. p < sum_list (take (o2n ! old) caps)
                    \<or> sum_list (take (o2n ! old) caps) + degree g old \<le> p
                  \<longrightarrow> arr' ! p = arr ! p)"
proof -
  define N where "N = num_nodes g"
  define new where "new = o2n ! old"
  define start where "start = sum_list (take new caps)"
  have lcaps: "length caps = N" by (simp add: caps N_def)
  have new: "new < N" "perm ! new = old"
    using renaming_facts(5) [OF ren old] by (simp_all add: new_def N_def)
  have capn: "caps ! new = degree g old" using new by (simp add: caps N_def)
  have lo: "length o2n = num_nodes g" by (rule renaming_facts(2) [OF ren])
  have rd_new: "at o2n old = Inr new" using old lo by (simp add: at_def new_def)
  have rd_start: "(if new = 0 then Inr 0 else at (partial_sum caps) (new - 1)) = Inr start"
  proof (cases new)
    case 0
    then show ?thesis by (simp add: start_def)
  next
    case (Suc k)
    then show ?thesis using new(1) lcaps by (simp add: at_def partial_sum_nth start_def)
  qed
  have endp: "start + degree g old = sum_list (take (Suc new) caps)"
    using new(1) lcaps capn by (simp add: start_def sum_list_take_Suc)
  have "sum_list (take (Suc new) caps) \<le> sum_list (take N caps)"
    using new(1) by (intro sum_list_take_mono) simp
  also have "\<dots> = num_edges g"
    using renaming_sum_caps [OF csr ren] lcaps by (simp add: caps)
  finally have room: "start + degree g old \<le> length arr" using endp larr by simp
  from reindex_run [OF csr old lo room] obtain arr' where
    run: "for_each (reindex_edge g o2n) [edge_begin g old ..< edge_end g old] (start, arr)
          = Inr (start + degree g old, arr')"
    and la: "length arr' = length arr"
    and blk: "\<forall>j < degree g old. arr' ! (start + j) = o2n ! (dests g ! (edge_begin g old + j))"
    and rest: "\<forall>p. p < start \<or> start + degree g old \<le> p \<longrightarrow> arr' ! p = arr ! p"
    by blast
  have rd_end: "at (partial_sum caps) new = Inr (start + degree g old)"
    using new(1) lcaps endp by (simp add: at_def partial_sum_nth)
  have "reindex_node debug g o2n (partial_sum caps) old arr = Inr arr'"
    by (simp add: reindex_node_def rd_new rd_start run rd_end)
  moreover have "length arr' = num_edges g" using la larr by simp
  ultimately show ?thesis
    using blk rest unfolding start_def new_def by blast
qed

lemma reindex_edges_blocks:
  assumes csr: "csr_invariants g" and ren: "renaming g perm o2n"
    and caps: "caps = map (\<lambda>k. degree g (perm ! k)) [0 ..< num_nodes g]"
    and lout: "length out0 = num_edges g"
  shows "\<exists>out. reindex_edges debug g o2n (partial_sum caps) out0 = Inr out
           \<and> length out = num_edges g
           \<and> (\<forall>old < num_nodes g. \<forall>j < degree g old.
                 out ! (sum_list (take (o2n ! old) caps) + j)
                 = o2n ! (dests g ! (edge_begin g old + j)))"
proof -
  define N where "N = num_nodes g"
  have lcaps: "length caps = N" by (simp add: caps N_def)
  have step: "\<exists>out. for_each (reindex_node debug g o2n (partial_sum caps)) [0 ..< m] out0 = Inr out
                \<and> length out = num_edges g
                \<and> (\<forall>old < m. \<forall>j < degree g old.
                      out ! (sum_list (take (o2n ! old) caps) + j)
                      = o2n ! (dests g ! (edge_begin g old + j)))"
    if "m \<le> N" for m
    using that
  proof (induction m)
    case 0
    then show ?case using lout by simp
  next
    case (Suc m)
    then obtain out where
      run: "for_each (reindex_node debug g o2n (partial_sum caps)) [0 ..< m] out0 = Inr out"
      and lo: "length out = num_edges g"
      and inv: "\<forall>old < m. \<forall>j < degree g old.
                  out ! (sum_list (take (o2n ! old) caps) + j)
                  = o2n ! (dests g ! (edge_begin g old + j))"
      by auto
    have m: "m < num_nodes g" using Suc.prems by (simp add: N_def)
    from reindex_node_ok [OF csr ren caps m lo, of debug] obtain out' where
      node: "reindex_node debug g o2n (partial_sum caps) m out = Inr out'"
      and lo': "length out' = num_edges g"
      and blk: "\<forall>j < degree g m. out' ! (sum_list (take (o2n ! m) caps) + j)
                  = o2n ! (dests g ! (edge_begin g m + j))"
      and rest: "\<forall>p. p < sum_list (take (o2n ! m) caps)
                    \<or> sum_list (take (o2n ! m) caps) + degree g m \<le> p
                  \<longrightarrow> out' ! p = out ! p"
      by blast
    have run': "for_each (reindex_node debug g o2n (partial_sum caps)) [0 ..< Suc m] out0 = Inr out'"
      by (simp add: for_each_append run node)
    have km: "o2n ! m < N" "perm ! (o2n ! m) = m"
      using renaming_facts(5) [OF ren m] by (simp_all add: N_def)
    have keep: "out' ! (sum_list (take (o2n ! old) caps) + j)
                = out ! (sum_list (take (o2n ! old) caps) + j)"
      if old: "old < m" and j: "j < degree g old" for old j
    proof -
      have oldN: "old < num_nodes g" using old m by simp
      have ko: "o2n ! old < N" "perm ! (o2n ! old) = old"
        using renaming_facts(5) [OF ren oldN] by (simp_all add: N_def)
      have ne: "o2n ! old \<noteq> o2n ! m" using ko(2) km(2) old by auto
      have cap_old: "caps ! (o2n ! old) = degree g old" using ko by (simp add: caps N_def)
      have cap_m: "caps ! (o2n ! m) = degree g m" using km by (simp add: caps N_def)
      show ?thesis
      proof (cases "o2n ! old < o2n ! m")
        case True
        have "sum_list (take (o2n ! old) caps) + j < sum_list (take (Suc (o2n ! old)) caps)"
          using j ko(1) lcaps cap_old by (simp add: sum_list_take_Suc)
        also have "\<dots> \<le> sum_list (take (o2n ! m) caps)"
          using True by (intro sum_list_take_mono) simp
        finally show ?thesis using rest by simp
      next
        case False
        then have lt: "o2n ! m < o2n ! old" using ne by simp
        have "sum_list (take (o2n ! m) caps) + degree g m = sum_list (take (Suc (o2n ! m)) caps)"
          using km(1) lcaps cap_m by (simp add: sum_list_take_Suc)
        also have "\<dots> \<le> sum_list (take (o2n ! old) caps)"
          using lt by (intro sum_list_take_mono) simp
        finally show ?thesis using rest by simp
      qed
    qed
    have inv': "out' ! (sum_list (take (o2n ! old) caps) + j)
                = o2n ! (dests g ! (edge_begin g old + j))"
      if "old < Suc m" and "j < degree g old" for old j
    proof (cases "old = m")
      case True
      then show ?thesis using blk that by simp
    next
      case False
      then have "old < m" using that by simp
      then show ?thesis using keep inv that by simp
    qed
    show ?case using run' lo' inv' by blast
  qed
  have "all_nodes g = [0 ..< N]" using all_nodes_csr [OF csr] by (simp add: N_def)
  then show ?thesis using step [of N] by (simp add: reindex_edges_def N_def)
qed

lemma renamed_topology:
  assumes csr: "csr_invariants g" and ren: "renaming g perm o2n"
    and caps: "caps = map (\<lambda>k. degree g (perm ! k)) [0 ..< num_nodes g]"
    and lout: "length out = num_edges g"
    and blocks: "\<forall>old < num_nodes g. \<forall>j < degree g old.
                   out ! (sum_list (take (o2n ! old) caps) + j)
                   = o2n ! (dests g ! (edge_begin g old + j))"
  shows "csr_invariants \<lparr>adj_indices = partial_sum caps, dests = out\<rparr>"
    and "mset (edge_list \<lparr>adj_indices = partial_sum caps, dests = out\<rparr>)
         = image_mset (map_prod ((!) o2n) ((!) o2n)) (mset (edge_list g))"
proof -
  define N where "N = num_nodes g"
  define content where
    "content k = map (\<lambda>e. o2n ! (dests g ! e)) [edge_begin g (perm ! k) ..< edge_end g (perm ! k)]"
    for k
  have lcaps: "length caps = N" by (simp add: caps N_def)
  have capk: "caps ! k = degree g (perm ! k)" if "k < N" for k using that by (simp add: caps N_def)
  have permk: "perm ! k < N" "o2n ! (perm ! k) = k" if "k < N" for k
    using renaming_facts(3,4) [OF ren] that by (simp_all add: N_def)
  have lens: "\<forall>k < length caps. length (content k) = caps ! k"
    using capk lcaps by (simp add: content_def degree_def)
  have slices: "\<forall>k < length caps. \<forall>j < caps ! k.
                  out ! (sum_list (take k caps) + j) = content k ! j"
  proof (intro allI impI)
    fix k j assume k: "k < length caps" and j: "j < caps ! k"
    then have kN: "k < N" using lcaps by simp
    have j': "j < degree g (perm ! k)" using j capk [OF kN] by simp
    have "out ! (sum_list (take (o2n ! (perm ! k)) caps) + j)
          = o2n ! (dests g ! (edge_begin g (perm ! k) + j))"
      using blocks permk(1) [OF kN] j' by (simp add: N_def)
    moreover have "content k ! j = o2n ! (dests g ! (edge_begin g (perm ! k) + j))"
      using j' by (simp add: content_def degree_def)
    ultimately show "out ! (sum_list (take k caps) + j) = content k ! j"
      using permk(2) [OF kN] by simp
  qed
  have total: "sum_list caps = num_edges g"
    using renaming_sum_caps [OF csr ren] by (simp add: caps)
  have nodes: "\<forall>k < length caps. \<forall>d \<in> set (content k). d < length caps"
  proof (intro allI impI ballI)
    fix k d assume k: "k < length caps" and d: "d \<in> set (content k)"
    then obtain e where e: "edge_begin g (perm ! k) \<le> e" "e < edge_end g (perm ! k)"
      and de: "d = o2n ! (dests g ! e)"
      by (auto simp: content_def)
    have "(perm ! k, e) \<in> set (edge_ids g)"
      using e permk(1) [of k] k lcaps by (simp add: in_edge_ids N_def)
    then have "e < num_edges g" by (rule edge_ids_bounds(2) [OF csr])
    then have "dests g ! e < num_nodes g" using csr by (simp add: csr_invariants_def num_edges_def)
    then show "d < length caps"
      using renaming_facts(5) [OF ren] de lcaps by (simp add: N_def)
  qed
  show "csr_invariants \<lparr>adj_indices = partial_sum caps, dests = out\<rparr>"
    using csr lout total lcaps
    by (intro blocks_csr [OF _ lens slices nodes]) (simp_all add: csr_invariants_def N_def)
  let ?phi = "map_prod ((!) o2n) ((!) o2n)"
  let ?blk = "\<lambda>old. mset (map (Pair old) (out_neighbors g old))"
  have blk: "mset (map (Pair k) (content k)) = image_mset ?phi (?blk (perm ! k))" if "k < N" for k
  proof -
    have "map (Pair k) (content k) = map ?phi (map (Pair (perm ! k)) (out_neighbors g (perm ! k)))"
      using permk(2) [OF that] by (simp add: content_def out_neighbors_def comp_def)
    then show ?thesis by (metis mset_map)
  qed
  have lperm: "length perm = N" using renaming_facts(1) [OF ren] by (simp add: N_def)
  have "mset (edge_list \<lparr>adj_indices = partial_sum caps, dests = out\<rparr>)
        = sum_list (map (\<lambda>k. mset (map (Pair k) (content k))) [0 ..< N])"
    using blocks_edge_list [OF lens slices] lcaps by (simp add: mset_concat comp_def)
  also have "\<dots> = sum_list (map (\<lambda>k. image_mset ?phi (?blk (perm ! k))) [0 ..< N])"
    by (intro arg_cong [where f = sum_list] map_cong) (simp_all add: blk del: mset_map)
  also have "map (\<lambda>k. image_mset ?phi (?blk (perm ! k))) [0 ..< N]
             = map (\<lambda>old. image_mset ?phi (?blk old)) perm"
    using lperm by (intro nth_equalityI) simp_all
  also have "sum_list (map (\<lambda>old. image_mset ?phi (?blk old)) perm)
             = sum_list (map (\<lambda>old. image_mset ?phi (?blk old)) [0 ..< N])"
    using ren by (intro sum_list_perm_mset) (simp add: renaming_def N_def)
  also have "\<dots> = image_mset ?phi (sum_list (map ?blk [0 ..< N]))"
    by (simp add: image_mset_sum_list comp_def)
  also have "sum_list (map ?blk [0 ..< N]) = mset (edge_list g)"
    by (simp add: edge_list_out_neighbors mset_concat comp_def N_def)
  finally show "mset (edge_list \<lparr>adj_indices = partial_sum caps, dests = out\<rparr>)
         = image_mset ?phi (mset (edge_list g))" .
qed

text \<open>
  C6. For every property graph whose topology satisfies the CSR invariants, and every
  library sort that returns the pairs of degree and node as a permutation sorted by
  \<^verbatim>\<open>std::greater\<close>, \<open>SortNodesByDegree\<close> succeeds, and the topology it leaves has the
  CSR invariants and the same nodes, (a) degrees that do not increase from a node to the
  next, and (b) the multiset of the pairs of source degree and destination degree over
  all edges that the original topology has: there is a bijection of the nodes that maps
  the edges of the original onto the edges of the result and keeps the degree of every
  node.
\<close>

theorem SortNodesByDegree_sorted:
  assumes csr: "csr_invariants (topology pg)"
    and sorted: "mset (sort_fn greater_pair
                         (map (\<lambda>n. (degree (topology pg) n, n)) [0 ..< num_nodes (topology pg)]))
                 = mset (map (\<lambda>n. (degree (topology pg) n, n)) [0 ..< num_nodes (topology pg)])
                 \<and> is_sorted_by greater_pair
                     (sort_fn greater_pair
                        (map (\<lambda>n. (degree (topology pg) n, n)) [0 ..< num_nodes (topology pg)]))"
  shows "\<exists>pg'. SortNodesByDegree sort_fn debug pg = Inr pg'
           \<and> num_nodes (topology pg') = num_nodes (topology pg)
           \<and> csr_invariants (topology pg')
           \<and> (\<forall>n. n + 1 < num_nodes (topology pg') \<longrightarrow>
                  degree (topology pg') n \<ge> degree (topology pg') (n + 1))
           \<and> image_mset (\<lambda>(s, d). (degree (topology pg') s, degree (topology pg') d))
                (mset (edge_list (topology pg')))
               = image_mset (\<lambda>(s, d). (degree (topology pg) s, degree (topology pg) d))
                   (mset (edge_list (topology pg)))
           \<and> (\<exists>\<phi>. bij_betw \<phi> {..< num_nodes (topology pg)} {..< num_nodes (topology pg)}
                  \<and> mset (edge_list (topology pg'))
                      = image_mset (map_prod \<phi> \<phi>) (mset (edge_list (topology pg)))
                  \<and> (\<forall>n < num_nodes (topology pg).
                        degree (topology pg') (\<phi> n) = degree (topology pg) n))"
proof -
  define g where "g = topology pg"
  define N where "N = num_nodes g"
  define dn0 where "dn0 = map (\<lambda>n. (degree g n, n)) [0 ..< N]"
  define dn where "dn = sort_fn greater_pair dn0"
  define perm where "perm = map snd dn"
  define caps where "caps = map fst dn"
  note csr' = csr [folded g_def]
  have ms: "mset dn = mset dn0" and srt: "is_sorted_by greater_pair dn"
    using sorted by (simp_all add: dn_def dn0_def N_def g_def)
  have init: "fold (\<lambda>node dn_pairs. dn_pairs[node := (degree g node, node)])
                (all_nodes g) (replicate N (0, 0)) = dn0"
    unfolding all_nodes_csr [OF csr'] N_def [symmetric] dn0_def
    by (subst degrees_fold) simp_all
  have len: "length dn = N"
    using ms by (metis size_mset dn0_def length_map length_upt diff_zero)
  have set_dn: "set dn = set dn0" using ms by (metis set_mset_mset)
  have bound: "\<forall>p \<in> set dn. snd p < N" unfolding set_dn by (auto simp: dn0_def)
  have fst_snd: "fst p = degree g (snd p)" if "p \<in> set dn" for p
    using that unfolding set_dn by (auto simp: dn0_def)
  have "map snd dn0 = [0 ..< N]" by (simp add: dn0_def comp_def)
  then have ms_perm: "mset perm = mset [0 ..< N]"
    using ms by (metis perm_def mset_map)
  then have dist: "distinct (map snd dn)"
    unfolding perm_def [symmetric] by (metis distinct_upt mset_eq_imp_distinct_iff)
  from degrees_and_mapping_ok [OF len bound dist] obtain o2n where
    dm: "degrees_and_mapping N dn (replicate N 0, replicate N 0) = Inr (caps, o2n)"
    and lo: "length o2n = N" and inv: "\<forall>i < N. o2n ! (snd (dn ! i)) = i"
    unfolding caps_def by blast
  have ren: "renaming g perm o2n"
    using ms_perm lo inv len by (simp add: renaming_def N_def list_all_iff perm_def)
  have caps: "caps = map (\<lambda>k. degree g (perm ! k)) [0 ..< num_nodes g]"
    unfolding caps_def perm_def
    using len fst_snd by (intro nth_equalityI) (simp_all add: N_def)
  from reindex_edges_blocks [OF csr' ren caps, of "replicate (num_edges g) 0" debug] obtain out where
    re: "reindex_edges debug g o2n (partial_sum caps) (replicate (num_edges g) 0) = Inr out"
    and lout: "length out = num_edges g"
    and blocks: "\<forall>old < num_nodes g. \<forall>j < degree g old.
                   out ! (sum_list (take (o2n ! old) caps) + j)
                   = o2n ! (dests g ! (edge_begin g old + j))"
    by auto
  define g' where "g' = \<lparr>adj_indices = partial_sum caps, dests = out\<rparr>"
  have res: "SortNodesByDegree sort_fn debug pg = Inr (pg\<lparr>topology := g'\<rparr>)"
    unfolding SortNodesByDegree_def Let_def g_def [symmetric] N_def [symmetric] init
      dn_def [symmetric] dm
    by (simp add: re g'_def)
  have csr_g': "csr_invariants g'"
    and ms_g': "mset (edge_list g') = image_mset (map_prod ((!) o2n) ((!) o2n)) (mset (edge_list g))"
    unfolding g'_def using renamed_topology [OF csr' ren caps lout blocks] by simp_all
  have lcaps: "length caps = N" by (simp add: caps N_def)
  have nodes': "num_nodes g' = N" by (simp add: g'_def num_nodes_def lcaps)
  have deg': "degree g' k = caps ! k" if "k < N" for k
    using that lcaps by (simp add: g'_def degree_blocks)
  have desc: "degree g' (n + 1) \<le> degree g' n" if "n + 1 < N" for n
  proof -
    have "\<not> greater_pair (dn ! (n + 1)) (dn ! n)"
      using srt that len unfolding is_sorted_by_def sorted_wrt_iff_nth_less by simp
    then have "fst (dn ! (n + 1)) \<le> fst (dn ! n)" by (auto simp: greater_pair_def)
    then show ?thesis using that len by (simp add: deg' caps_def)
  qed
  have deg_phi: "degree g' (o2n ! x) = degree g x" if "x < N" for x
  proof -
    have k: "o2n ! x < N" "perm ! (o2n ! x) = x"
      using renaming_facts(5) [OF ren, of x] that by (simp_all add: N_def)
    then show ?thesis by (simp add: deg' caps N_def)
  qed
  have pairs: "image_mset (\<lambda>(s, d). (degree g' s, degree g' d)) (mset (edge_list g'))
               = image_mset (\<lambda>(s, d). (degree g s, degree g d)) (mset (edge_list g))"
  proof -
    have "image_mset (\<lambda>(s, d). (degree g' s, degree g' d)) (mset (edge_list g'))
          = image_mset (\<lambda>p. (degree g' (o2n ! fst p), degree g' (o2n ! snd p))) (mset (edge_list g))"
      by (simp add: ms_g' multiset.map_comp comp_def case_prod_unfold)
    also have "\<dots> = image_mset (\<lambda>p. (degree g (fst p), degree g (snd p))) (mset (edge_list g))"
    proof (rule image_mset_cong)
      fix p assume "p \<in># mset (edge_list g)"
      then have mem: "(fst p, snd p) \<in> set (edge_list g)" by simp
      have "fst p < N" "snd p < N"
        using edge_list_bounds [OF csr' mem] by (simp_all add: N_def)
      then show "(degree g' (o2n ! fst p), degree g' (o2n ! snd p))
                 = (degree g (fst p), degree g (snd p))"
        by (simp add: deg_phi)
    qed
    finally show ?thesis by (simp add: case_prod_unfold)
  qed
  have bij: "bij_betw ((!) o2n) {..< N} {..< N}"
  proof (rule bij_betw_byWitness [where f' = "(!) perm"])
    show "\<forall>a \<in> {..< N}. perm ! (o2n ! a) = a"
      using renaming_facts(5) [OF ren] by (simp add: N_def)
    show "\<forall>a' \<in> {..< N}. o2n ! (perm ! a') = a'"
      using renaming_facts(4) [OF ren] by (simp add: N_def)
    show "(!) o2n ` {..< N} \<subseteq> {..< N}"
      using renaming_facts(5) [OF ren] by (auto simp: N_def)
    show "(!) perm ` {..< N} \<subseteq> {..< N}"
      using renaming_facts(3) [OF ren] by (auto simp: N_def)
  qed
  have phi: "\<exists>\<phi>. bij_betw \<phi> {..< N} {..< N}
               \<and> mset (edge_list g') = image_mset (map_prod \<phi> \<phi>) (mset (edge_list g))
               \<and> (\<forall>n < N. degree g' (\<phi> n) = degree g n)"
    using bij ms_g' deg_phi by (intro exI [of _ "(!) o2n"]) simp
  have desc': "\<forall>n. n + 1 < num_nodes g' \<longrightarrow> degree g' (n + 1) \<le> degree g' n"
    using desc nodes' by simp
  show ?thesis
    using res nodes' csr_g' desc' pairs phi
    unfolding g_def [symmetric] N_def [symmetric]
    by (intro exI [of _ "pg\<lparr>topology := g'\<rparr>"]) simp
qed

lemma four_nodes_degrees:
  "map (\<lambda>n. (degree (topology four_nodes_pg) n, n)) [0 ..< num_nodes (topology four_nodes_pg)]
   = [(2, 0), (1, 1), (0, 2), (1, 3)]"
  by (simp add: four_nodes_pg_def four_nodes_def num_nodes_def degree_def edge_begin_def
      edge_end_def upt_rec)

lemma four_nodes_sorted_pairs:
  "sort_by greater_pair [(2, 0), (1, 1), (0, 2), (1, 3)] = [(2, 0), (1, 3), (1, 1), (0, 2)]"
  by (simp add: sort_by_def greater_pair_def)

theorem SortNodesByDegree_sorted_witness:
  "csr_invariants (topology four_nodes_pg)
   \<and> mset (sort_by greater_pair
             (map (\<lambda>n. (degree (topology four_nodes_pg) n, n))
                [0 ..< num_nodes (topology four_nodes_pg)]))
       = mset (map (\<lambda>n. (degree (topology four_nodes_pg) n, n))
                [0 ..< num_nodes (topology four_nodes_pg)])
   \<and> is_sorted_by greater_pair
         (sort_by greater_pair
            (map (\<lambda>n. (degree (topology four_nodes_pg) n, n))
               [0 ..< num_nodes (topology four_nodes_pg)]))
   \<and> SortNodesByDegree sort_by True four_nodes_pg
       = Inr (four_nodes_pg\<lparr>topology := \<lparr>adj_indices = [2, 3, 4, 4], dests = [2, 3, 1, 3]\<rparr>\<rparr>)
   \<and> (\<exists>pg'. SortNodesByDegree sort_by True four_nodes_pg = Inr pg'
           \<and> csr_invariants (topology pg')
           \<and> (\<forall>n. n + 1 < num_nodes (topology pg') \<longrightarrow>
                  degree (topology pg') n \<ge> degree (topology pg') (n + 1)))"
proof -
  have h2: "mset (sort_by greater_pair
             (map (\<lambda>n. (degree (topology four_nodes_pg) n, n))
                [0 ..< num_nodes (topology four_nodes_pg)]))
       = mset (map (\<lambda>n. (degree (topology four_nodes_pg) n, n))
                [0 ..< num_nodes (topology four_nodes_pg)])
   \<and> is_sorted_by greater_pair
         (sort_by greater_pair
            (map (\<lambda>n. (degree (topology four_nodes_pg) n, n))
               [0 ..< num_nodes (topology four_nodes_pg)]))"
    unfolding four_nodes_degrees four_nodes_sorted_pairs
    by (simp add: is_sorted_by_def greater_pair_def add_mset_commute)
  have val: "SortNodesByDegree sort_by True four_nodes_pg
       = Inr (four_nodes_pg\<lparr>topology := \<lparr>adj_indices = [2, 3, 4, 4], dests = [2, 3, 1, 3]\<rparr>\<rparr>)"
    unfolding SortNodesByDegree_def Let_def
    by (simp add: four_nodes_pg_def four_nodes_def num_nodes_def num_edges_def all_nodes_def
        degree_def edge_begin_def edge_end_def upt_rec sort_by_def greater_pair_def
        degrees_and_mapping_def at_def put_def partial_sum_def reindex_edges_def
        reindex_node_def reindex_edge_def edge_dest_def)
  show ?thesis
    using four_nodes_pg_csr h2 val
      SortNodesByDegree_sorted [where sort_fn = sort_by and pg = four_nodes_pg and debug = True,
        OF four_nodes_pg_csr h2]
    by blast
qed

subsection \<open>The topology with nodes sorted by degree\<close>

lemma map_and_degrees_prefix:
  assumes len: "length perm = N" and N: "N = num_nodes seed"
    and bound: "\<forall>p \<in> set perm. p < N" and dist: "distinct perm" and k: "k \<le> N"
  shows "\<exists>o2n. for_each (map_and_degree seed perm) [0 ..< k] (replicate N 0, replicate N 0)
                = Inr (o2n, map (degree seed) (take k perm) @ replicate (N - k) 0)
         \<and> length o2n = N \<and> (\<forall>i < k. o2n ! (perm ! i) = i)"
  using k
proof (induction k)
  case 0
  then show ?case by simp
next
  case (Suc k)
  then obtain o2n where
    run: "for_each (map_and_degree seed perm) [0 ..< k] (replicate N 0, replicate N 0)
          = Inr (o2n, map (degree seed) (take k perm) @ replicate (N - k) 0)"
    and lo: "length o2n = N" and inv: "\<forall>i < k. o2n ! (perm ! i) = i"
    by auto
  have kN: "k < N" using Suc.prems by simp
  have pk: "perm ! k < N" using bound kN len by simp
  let ?deg = "map (degree seed) (take k perm) @ replicate (N - k) 0"
  have deg': "?deg[k := degree seed (perm ! k)]
              = map (degree seed) (take (Suc k) perm) @ replicate (N - Suc k) 0"
  proof -
    have r: "replicate (N - k) (0 :: nat) = 0 # replicate (N - Suc k) 0"
      using kN by (metis Suc_diff_Suc replicate_Suc)
    have "?deg[k := degree seed (perm ! k)]
          = map (degree seed) (take k perm) @ (replicate (N - k) 0)[0 := degree seed (perm ! k)]"
      using kN len by (simp add: list_update_append)
    also have "(replicate (N - k) 0)[0 := degree seed (perm ! k)]
               = degree seed (perm ! k) # replicate (N - Suc k) 0"
      unfolding r by simp
    finally show ?thesis
      using kN len by (simp add: take_Suc_conv_app_nth)
  qed
  let ?o2n = "o2n[perm ! k := k]"
  have other: "perm ! i \<noteq> perm ! k" if "i < k" for i
    using dist that kN len by (simp add: distinct_conv_nth)
  have inv': "\<forall>i < Suc k. ?o2n ! (perm ! i) = i"
  proof (intro allI impI)
    fix i assume "i < Suc k"
    then consider "i = k" | "i < k" by linarith
    then show "?o2n ! (perm ! i) = i"
    proof cases
      case 1
      then show ?thesis using pk lo by simp
    next
      case 2
      then show ?thesis using other [OF 2] inv by simp
    qed
  qed
  have "map_and_degree seed perm k (o2n, ?deg) = Inr (?o2n, ?deg[k := degree seed (perm ! k)])"
    using kN len lo pk N
    by (simp add: map_and_degree_def at_def put_def edges_def degree_def)
  then have "for_each (map_and_degree seed perm) [0 ..< Suc k] (replicate N 0, replicate N 0)
             = Inr (?o2n, ?deg[k := degree seed (perm ! k)])"
    by (simp add: for_each_append run)
  then show ?case using deg' inv' lo by auto
qed

lemma shuffle_run:
  assumes lo: "length o2n = num_nodes seed" and csr: "csr_invariants seed"
    and lp: "length (edge_prop_indices seed) = num_edges seed"
    and new: "new < length degrees"
    and es: "\<forall>e \<in> set es. e < num_edges seed"
    and room: "idx + length es \<le> degrees ! new" "degrees ! new \<le> num_edges seed"
    and ldv: "length dv = num_edges seed" and lpv: "length pv = num_edges seed"
  shows "\<exists>dv' pv'. for_each (shuffle_edge debug seed o2n degrees new) es (idx, dv, pv)
                    = Inr (idx + length es, dv', pv')
           \<and> length dv' = num_edges seed \<and> length pv' = num_edges seed"
  using es room(1) ldv lpv
proof (induction es arbitrary: idx dv pv)
  case Nil
  then show ?case by simp
next
  case (Cons e es)
  have e: "e < num_edges seed" using Cons.prems(1) by simp
  then have d: "dests seed ! e < length o2n"
    using csr lo by (simp add: csr_invariants_def num_edges_def)
  have idx: "idx + 1 \<le> degrees ! new" "idx < num_edges seed"
    using Cons.prems(2) room(2) by simp_all
  let ?dv = "dv[idx := o2n ! (dests seed ! e)]"
  let ?pv = "pv[idx := edge_prop_indices seed ! e]"
  have step: "shuffle_edge debug seed o2n degrees new e (idx, dv, pv) = Inr (idx + 1, ?dv, ?pv)"
    using e d idx new lp Cons.prems(3,4)
    by (simp add: shuffle_edge_def edge_dest_def edge_property_index_def at_def put_def
        num_edges_def)
  have "\<exists>dv' pv'. for_each (shuffle_edge debug seed o2n degrees new) es (idx + 1, ?dv, ?pv)
                    = Inr (idx + 1 + length es, dv', pv')
           \<and> length dv' = num_edges seed \<and> length pv' = num_edges seed"
    using Cons.prems by (intro Cons.IH) simp_all
  then show ?case using step by auto
qed

lemma degree_partial_sum:
  "adj_indices t = partial_sum caps \<Longrightarrow> k < length caps \<Longrightarrow> degree t k = caps ! k"
  by (cases k) (simp_all add: degree_def edge_begin_def edge_end_def partial_sum_nth
      sum_list_take_Suc)

lemma shuffle_node_ok:
  assumes csr: "csr_invariants seed"
    and lp: "length (edge_prop_indices seed) = num_edges seed"
    and ren: "renaming seed perm o2n"
    and caps: "caps = map (\<lambda>k. degree seed (perm ! k)) [0 ..< num_nodes seed]"
    and old: "old < num_nodes seed"
    and ldv: "length dv = num_edges seed" and lpv: "length pv = num_edges seed"
  shows "\<exists>dv' pv'. shuffle_node debug seed o2n (partial_sum caps) old (dv, pv) = Inr (dv', pv')
           \<and> length dv' = num_edges seed \<and> length pv' = num_edges seed"
proof -
  define N where "N = num_nodes seed"
  define new where "new = o2n ! old"
  define start where "start = sum_list (take new caps)"
  let ?es = "[edge_begin seed old ..< edge_end seed old]"
  have lcaps: "length caps = N" by (simp add: caps N_def)
  have new: "new < N" "perm ! new = old"
    using renaming_facts(5) [OF ren old] by (simp_all add: new_def N_def)
  have capn: "caps ! new = degree seed old" using new by (simp add: caps N_def)
  have lo: "length o2n = num_nodes seed" by (rule renaming_facts(2) [OF ren])
  have rd_new: "at o2n old = Inr new" using old lo by (simp add: at_def new_def)
  have rd_start: "(if new > 0 then at (partial_sum caps) (new - 1) else Inr 0) = Inr start"
  proof (cases new)
    case 0
    then show ?thesis by (simp add: start_def)
  next
    case (Suc k)
    then show ?thesis using new(1) lcaps by (simp add: at_def partial_sum_nth start_def)
  qed
  have les: "length ?es = degree seed old" by (simp add: degree_def)
  have es: "\<forall>e \<in> set ?es. e < num_edges seed"
  proof
    fix e assume "e \<in> set ?es"
    then have "(old, e) \<in> set (edge_ids seed)" using old by (simp add: in_edge_ids)
    then show "e < num_edges seed" by (rule edge_ids_bounds(2) [OF csr])
  qed
  have endp: "partial_sum caps ! new = start + degree seed old"
    using new(1) lcaps capn by (simp add: partial_sum_nth start_def sum_list_take_Suc)
  have room1: "start + length ?es \<le> partial_sum caps ! new" using endp les by simp
  have "partial_sum caps ! new = sum_list (take (Suc new) caps)"
    using new(1) lcaps by (simp add: partial_sum_nth)
  also have "\<dots> \<le> sum_list (take N caps)" using new(1) by (intro sum_list_take_mono) simp
  also have "\<dots> = num_edges seed"
    using renaming_sum_caps [OF csr ren] lcaps by (simp add: caps)
  finally have room2: "partial_sum caps ! new \<le> num_edges seed" .
  have lnew: "new < length (partial_sum caps)" using new(1) lcaps by simp
  from shuffle_run [OF lo csr lp lnew es room1 room2 ldv lpv, of debug] obtain dv' pv' where
    "for_each (shuffle_edge debug seed o2n (partial_sum caps) new) ?es (start, dv, pv)
     = Inr (start + length ?es, dv', pv')"
    and "length dv' = num_edges seed" and "length pv' = num_edges seed"
    by blast
  then show ?thesis
    by (simp add: shuffle_node_def rd_new rd_start)
qed

lemma shuffle_nodes_ok:
  assumes csr: "csr_invariants seed"
    and lp: "length (edge_prop_indices seed) = num_edges seed"
    and ren: "renaming seed perm o2n"
    and caps: "caps = map (\<lambda>k. degree seed (perm ! k)) [0 ..< num_nodes seed]"
    and nodes: "\<forall>old \<in> set olds. old < num_nodes seed"
    and ldv: "length dv = num_edges seed" and lpv: "length pv = num_edges seed"
  shows "\<exists>dv' pv'. for_each (shuffle_node debug seed o2n (partial_sum caps)) olds (dv, pv)
                    = Inr (dv', pv')
           \<and> length dv' = num_edges seed \<and> length pv' = num_edges seed"
  using nodes ldv lpv
proof (induction olds arbitrary: dv pv)
  case Nil
  then show ?case by simp
next
  case (Cons old olds)
  have old: "old < num_nodes seed" using Cons.prems(1) by simp
  from shuffle_node_ok [OF csr lp ren caps old Cons.prems(2,3), of debug] obtain dv1 pv1 where
    step: "shuffle_node debug seed o2n (partial_sum caps) old (dv, pv) = Inr (dv1, pv1)"
    and l1: "length dv1 = num_edges seed" "length pv1 = num_edges seed"
    by blast
  have "\<exists>dv' pv'. for_each (shuffle_node debug seed o2n (partial_sum caps)) olds (dv1, pv1)
                    = Inr (dv', pv')
           \<and> length dv' = num_edges seed \<and> length pv' = num_edges seed"
    using Cons.prems(1) l1 by (intro Cons.IH) simp_all
  then show ?case using step by auto
qed

lemma cmp_degree_less: "cmp_degree seed i1 i2 \<longleftrightarrow> degree seed i1 < degree seed i2"
  by (simp add: cmp_degree_def Let_def)

text \<open>
  C10. For every seed topology that satisfies the CSR invariants and has a property index
  for every edge, and every library sort that returns the node ids as a permutation
  sorted by the comparator of \<open>MakeSortedByDegree\<close>, the function succeeds and produces
  a topology on the same nodes, marked \<open>kSortedByDegree\<close>, in which the degree of node
  \<open>n\<close> is the degree in the seed of the node it comes from and is at most the degree
  of node \<open>n + 1\<close>: the degrees ascend, where \<open>SortNodesByDegree\<close> makes them descend.
\<close>

theorem MakeSortedByDegree_ascending:
  assumes csr: "csr_invariants seed"
    and lp: "length (edge_prop_indices seed) = num_edges seed"
    and sorted: "mset (sort_fn (cmp_degree seed) [0 ..< num_nodes seed]) = mset [0 ..< num_nodes seed]
                 \<and> is_sorted_by (cmp_degree seed) (sort_fn (cmp_degree seed) [0 ..< num_nodes seed])"
  shows "\<exists>t. MakeSortedByDegree sort_fn debug pg seed = Inr t
           \<and> num_nodes t = num_nodes seed
           \<and> node_sort_state t = kSortedByDegree
           \<and> (\<forall>n < num_nodes t. degree t n = degree seed (node_prop_indices t ! n))
           \<and> (\<forall>n. n + 1 < num_nodes t \<longrightarrow> degree t n \<le> degree t (n + 1))"
proof -
  define N where "N = num_nodes seed"
  define perm where "perm = sort_fn (cmp_degree seed) [0 ..< N]"
  define degs where "degs = map (degree seed) perm"
  have ms: "mset perm = mset [0 ..< N]" and srt: "is_sorted_by (cmp_degree seed) perm"
    using sorted by (simp_all add: perm_def N_def)
  have len: "length perm = N" using ms by (metis size_mset length_upt diff_zero)
  have bound: "\<forall>p \<in> set perm. p < N" using ms by (metis set_mset_mset set_upt atLeastLessThan_iff)
  have dist: "distinct perm" using ms by (metis distinct_upt mset_eq_imp_distinct_iff)
  from map_and_degrees_prefix [OF len N_def bound dist, of N] obtain o2n where
    md: "map_and_degrees seed perm (replicate N 0, replicate N 0) = Inr (o2n, degs)"
    and lo: "length o2n = N" and inv: "\<forall>i < N. o2n ! (perm ! i) = i"
    using len by (auto simp: map_and_degrees_def degs_def)
  have ren: "renaming seed perm o2n"
    using ms lo inv by (simp add: renaming_def N_def list_all_iff)
  have caps: "degs = map (\<lambda>k. degree seed (perm ! k)) [0 ..< num_nodes seed]"
    unfolding degs_def using len by (intro nth_equalityI) (simp_all add: N_def)
  have ldegs: "length degs = N" by (simp add: degs_def len)
  have asc: "sorted_wrt (\<lambda>a b. \<not> b < a) degs"
    using srt by (simp add: is_sorted_by_def degs_def sorted_wrt_map cmp_degree_less)
  have nodes: "\<forall>old \<in> set (all_nodes seed). old < num_nodes seed"
    by (simp add: all_nodes_csr [OF csr])
  from shuffle_nodes_ok [OF csr lp ren caps nodes, of "replicate (num_edges seed) 0"
      "replicate (num_edges seed) 0" debug]
  obtain dv pv where
    sh: "for_each (shuffle_node debug seed o2n (partial_sum degs)) (all_nodes seed)
           (replicate (num_edges seed) 0, replicate (num_edges seed) 0) = Inr (dv, pv)"
    and ldv: "length dv = num_edges seed" and lpv: "length pv = num_edges seed"
    by auto
  define t :: ShuffleTopology where
    "t = \<lparr>adj_indices = partial_sum degs, dests = dv, is_valid = True,
          tpose_state = tpose_state seed, edge_sort_state = edge_sort_state seed,
          edge_prop_indices = pv, node_sort_state = kSortedByDegree,
          node_prop_indices = perm\<rparr>"
  have res: "MakeSortedByDegree sort_fn debug pg seed = Inr t"
    unfolding MakeSortedByDegree_def MakeNodeSortedTopo_def Let_def N_def [symmetric]
      perm_def [symmetric] md
    using asc sh ldv lpv len ldegs
    by (simp add: is_sorted_by_def t_def)
  have nt: "num_nodes t = N" by (simp add: t_def num_nodes_def ldegs)
  have deg: "degree t n = degree seed (perm ! n)" if "n < N" for n
  proof -
    have "degree t n = degs ! n"
      using that ldegs by (intro degree_partial_sum) (simp_all add: t_def)
    then show ?thesis using that len by (simp add: degs_def)
  qed
  have up: "degree t n \<le> degree t (n + 1)" if "n + 1 < N" for n
  proof -
    have "\<not> degs ! (n + 1) < degs ! n"
      using asc that ldegs unfolding sorted_wrt_iff_nth_less by simp
    then show ?thesis using that len by (simp add: deg degs_def)
  qed
  show ?thesis
    using res nt deg up by (intro exI [of _ t]) (simp add: t_def N_def)
qed

lemma four_nodes_seed_sorted_ids:
  "sort_by (cmp_degree four_nodes_seed) [0 ..< num_nodes four_nodes_seed] = [2, 3, 1, 0]"
  by (simp add: sort_by_def cmp_degree_less degree_def edge_begin_def edge_end_def
      four_nodes_seed_def num_nodes_def upt_rec)

theorem MakeSortedByDegree_ascending_witness:
  "csr_invariants four_nodes_seed
   \<and> length (edge_prop_indices four_nodes_seed) = num_edges four_nodes_seed
   \<and> mset (sort_by (cmp_degree four_nodes_seed) [0 ..< num_nodes four_nodes_seed])
       = mset [0 ..< num_nodes four_nodes_seed]
   \<and> is_sorted_by (cmp_degree four_nodes_seed)
         (sort_by (cmp_degree four_nodes_seed) [0 ..< num_nodes four_nodes_seed])
   \<and> MakeSortedByDegree sort_by True four_nodes_pg four_nodes_seed
       = Inr \<lparr>adj_indices = [0, 1, 2, 4], dests = [1, 0, 2, 0], is_valid = True,
              tpose_state = kNo, edge_sort_state = kAny, edge_prop_indices = [3, 2, 0, 1],
              node_sort_state = kSortedByDegree, node_prop_indices = [2, 3, 1, 0]\<rparr>
   \<and> (\<exists>t. MakeSortedByDegree sort_by True four_nodes_pg four_nodes_seed = Inr t
          \<and> num_nodes t = num_nodes four_nodes_seed
          \<and> (\<forall>n. n + 1 < num_nodes t \<longrightarrow> degree t n \<le> degree t (n + 1)))"
proof -
  have lp: "length (edge_prop_indices four_nodes_seed) = num_edges four_nodes_seed"
    by (simp add: four_nodes_seed_def num_edges_def)
  have srt: "mset (sort_by (cmp_degree four_nodes_seed) [0 ..< num_nodes four_nodes_seed])
       = mset [0 ..< num_nodes four_nodes_seed]
   \<and> is_sorted_by (cmp_degree four_nodes_seed)
         (sort_by (cmp_degree four_nodes_seed) [0 ..< num_nodes four_nodes_seed])"
    unfolding four_nodes_seed_sorted_ids
    by (simp add: is_sorted_by_def cmp_degree_less degree_def edge_begin_def edge_end_def
        four_nodes_seed_def num_nodes_def upt_rec eval_nat_numeral add_mset_commute)
  have val: "MakeSortedByDegree sort_by True four_nodes_pg four_nodes_seed
       = Inr \<lparr>adj_indices = [0, 1, 2, 4], dests = [1, 0, 2, 0], is_valid = True,
              tpose_state = kNo, edge_sort_state = kAny, edge_prop_indices = [3, 2, 0, 1],
              node_sort_state = kSortedByDegree, node_prop_indices = [2, 3, 1, 0]\<rparr>"
    unfolding MakeSortedByDegree_def MakeNodeSortedTopo_def Let_def four_nodes_seed_sorted_ids
    by (simp add: four_nodes_seed_def num_nodes_def num_edges_def all_nodes_def
        degree_def edge_begin_def edge_end_def edges_def upt_rec is_sorted_by_def
        map_and_degrees_def map_and_degree_def at_def put_def partial_sum_def
        shuffle_node_def shuffle_edge_def edge_dest_def edge_property_index_def)
  show ?thesis
    using four_nodes_seed_csr lp srt val
      MakeSortedByDegree_ascending [where sort_fn = sort_by and seed = four_nodes_seed
        and debug = True and pg = four_nodes_pg, OF four_nodes_seed_csr lp srt]
    by blast
qed

subsection \<open>The condensed map of edge types\<close>

lemma set_set_insert [simp]: "set (set_insert x xs) = insert x (set xs)"
  by (induction xs) auto

lemma sorted_set_insert [simp]: "sorted_wrt (<) xs \<Longrightarrow> sorted_wrt (<) (set_insert x xs)"
  by (induction xs) auto

lemma set_fold_set_insert [simp]: "set (fold set_insert ys m) = set ys \<union> set m"
  by (induction ys arbitrary: m) auto

lemma sorted_fold_set_insert [simp]:
  "sorted_wrt (<) m \<Longrightarrow> sorted_wrt (<) (fold set_insert ys m)"
  by (induction ys arbitrary: m) auto


lemma collect_step_length:
  "length (fold (\<lambda>e edgeTypes.
             edgeTypes[tid_of e := set_insert (ty e) (edgeTypes ! tid_of e)]) order sets)
   = length sets"
  by (induction order arbitrary: sets) auto

lemma collect_step_sorted:
  "\<forall>i < length sets. sorted_wrt (<) (sets ! i) \<Longrightarrow>
   i < length sets \<Longrightarrow>
   sorted_wrt (<) (fold (\<lambda>e edgeTypes.
             edgeTypes[tid_of e := set_insert (ty e) (edgeTypes ! tid_of e)]) order sets ! i)"
proof (induction order arbitrary: sets)
  case Nil
  then show ?case by simp
next
  case (Cons e order)
  let ?sets = "sets[tid_of e := set_insert (ty e) (sets ! tid_of e)]"
  have "\<forall>j < length ?sets. sorted_wrt (<) (?sets ! j)"
    using Cons.prems(1) by (cases "tid_of e < length sets") (auto simp: nth_list_update)
  moreover have "i < length ?sets" using Cons.prems(2) by simp
  ultimately show ?case using Cons.IH [of ?sets] by simp
qed

lemma collect_step_union:
  "\<forall>e \<in> set order. tid_of e < length sets \<Longrightarrow>
   (\<Union>i < length sets. set (fold (\<lambda>e edgeTypes.
             edgeTypes[tid_of e := set_insert (ty e) (edgeTypes ! tid_of e)]) order sets ! i))
   = (\<Union>i < length sets. set (sets ! i)) \<union> ty ` set order"
proof (induction order arbitrary: sets)
  case Nil
  then show ?case by simp
next
  case (Cons e order)
  let ?sets = "sets[tid_of e := set_insert (ty e) (sets ! tid_of e)]"
  have tid: "tid_of e < length sets" using Cons.prems by simp
  have "(\<Union>i < length ?sets. set (?sets ! i)) = insert (ty e) (\<Union>i < length sets. set (sets ! i))"
    using tid by (auto simp: nth_list_update split: if_splits)
  moreover have "\<forall>e \<in> set order. tid_of e < length ?sets" using Cons.prems by simp
  ultimately show ?case using Cons.IH [of ?sets] by simp
qed

lemma merge_step_set:
  "set (fold (\<lambda>i mergedSet. fold set_insert (edgeTypes ! i) mergedSet) is m)
   = (\<Union>i \<in> set is. set (edgeTypes ! i)) \<union> set m"
  by (induction "is" arbitrary: m) auto

lemma merge_step_sorted:
  "sorted_wrt (<) m \<Longrightarrow>
   sorted_wrt (<) (fold (\<lambda>i mergedSet. fold set_insert (edgeTypes ! i) mergedSet) is m)"
  by (induction "is" arbitrary: m) auto

lemma merged_is_sorted_list_of_set:
  assumes "\<forall>e \<in> set order. tid_of e < activeThreads"
  shows "merge_edge_types activeThreads (collect_edge_types activeThreads tid_of order pg)
         = sorted_list_of_set (GetTypeOfEdge pg ` set order)"
proof -
  let ?c = "collect_edge_types activeThreads tid_of order pg"
  let ?m = "merge_edge_types activeThreads ?c"
  have len: "length ?c = activeThreads"
    by (simp add: collect_edge_types_def collect_step_length)
  have "(\<Union>i < activeThreads. set (?c ! i)) = GetTypeOfEdge pg ` set order"
    using collect_step_union [of order tid_of "replicate activeThreads []" "GetTypeOfEdge pg"] assms
    by (simp add: collect_edge_types_def)
  then have set_m: "set ?m = GetTypeOfEdge pg ` set order"
    by (simp add: merge_edge_types_def merge_step_set lessThan_atLeast0)
  have "sorted_wrt (<) ?m"
    by (simp add: merge_edge_types_def merge_step_sorted)
  then have "sorted ?m" "distinct ?m"
    by (simp_all add: strict_sorted_iff)
  then show ?thesis
    using set_m sorted_list_of_set.idem_if_sorted_distinct by metis
qed


lemma assign_step:
  "distinct xs \<Longrightarrow> n + length xs < 2 ^ 32 \<Longrightarrow>
   fold assign_index xs (m, v, n) = (m', v', n') \<Longrightarrow>
   v' = v @ xs \<and> (\<forall>i < length xs. m' (xs ! i) = Some (n + i)) \<and> (\<forall>k. k \<notin> set xs \<longrightarrow> m' k = m k)"
proof (induction xs arbitrary: m v n)
  case Nil
  then show ?case by simp
next
  case (Cons x xs)
  have n1: "(n + 1) mod 2 ^ 32 = n + 1" using Cons.prems(2) by simp
  from Cons.prems(3) have run: "fold assign_index xs (m(x \<mapsto> n), v @ [x], n + 1) = (m', v', n')"
    using n1 by simp
  have ih: "v' = (v @ [x]) @ xs \<and> (\<forall>i < length xs. m' (xs ! i) = Some (n + 1 + i))
            \<and> (\<forall>k. k \<notin> set xs \<longrightarrow> m' k = (m(x \<mapsto> n)) k)"
    using Cons.IH [OF _ _ run] Cons.prems(1,2) by simp
  have "m' ((x # xs) ! i) = Some (n + i)" if "i < length (x # xs)" for i
  proof (cases i)
    case 0
    then show ?thesis using ih Cons.prems(1) by simp
  next
    case (Suc j)
    then show ?thesis using ih that by simp
  qed
  then show ?case using ih by simp
qed

lemma distinct_EntityType_length:
  fixes xs :: "EntityType list"
  assumes "distinct xs"
  shows "length xs \<le> 256"
proof -
  have "length xs = card (set xs)" using assms by (simp add: distinct_card)
  also have "\<dots> \<le> card (UNIV :: EntityType set)" by (rule card_mono) simp_all
  also have "\<dots> = 256" by (simp add: card_word)
  finally show ?thesis .
qed

lemma MakeFromEdgeTypes_char:
  fixes pg :: PropertyGraph
  assumes "\<forall>e \<in> set order. tid_of e < activeThreads"
  defines "m \<equiv> MakeFromEdgeTypes activeThreads tid_of order pg"
  defines "sl \<equiv> sorted_list_of_set (GetTypeOfEdge pg ` set order)"
  shows "index_to_type_map m = sl"
    and "\<forall>i < length sl. type_to_index_map m (sl ! i) = Some i"
    and "\<forall>k. k \<notin> set sl \<longrightarrow> type_to_index_map m k = None"
    and "map_is_valid m"
proof -
  have merged: "merge_edge_types activeThreads (collect_edge_types activeThreads tid_of order pg) = sl"
    unfolding sl_def using assms(1) by (rule merged_is_sorted_list_of_set)
  have d: "distinct sl" by (simp add: sl_def)
  then have len: "0 + length sl < 2 ^ 32" using distinct_EntityType_length [of sl] by simp
  obtain m' v' n' where run: "assign_indices sl = (m', v', n')"
    by (cases "assign_indices sl") auto
  have m_eq: "m = \<lparr>type_to_index_map = m', index_to_type_map = v', map_is_valid = True\<rparr>"
    by (simp add: m_def MakeFromEdgeTypes_def merged run)
  have "v' = [] @ sl \<and> (\<forall>i < length sl. m' (sl ! i) = Some (0 + i))
        \<and> (\<forall>k. k \<notin> set sl \<longrightarrow> m' k = Map.empty k)"
    using run unfolding assign_indices_def by (rule assign_step [OF d len])
  then show "index_to_type_map m = sl"
    and "\<forall>i < length sl. type_to_index_map m (sl ! i) = Some i"
    and "\<forall>k. k \<notin> set sl \<longrightarrow> type_to_index_map m k = None"
    and "map_is_valid m"
    by (simp_all add: m_eq)
qed


text \<open>
  C7. For every property graph, every number of worker threads and every schedule (the
  order in which the edges are visited, each edge once, and the thread that visits each
  edge), \<open>MakeFromEdgeTypes\<close> yields a map whose index-to-type vector is the ascending
  list of the distinct edge types present among the edges, whose type-to-index map is
  defined on exactly these types, in which \<open>GetType\<close> and \<open>GetIndex\<close> are inverse to
  each other between the present types and the indices below their number, and which is
  the map that one thread visiting the edges in ascending order builds.
\<close>

theorem MakeFromEdgeTypes_condensed:
  fixes pg :: PropertyGraph
  assumes "mset order = mset (all_edges (topology pg))"
    and "\<forall>e \<in> set order. tid_of e < activeThreads"
  defines "m \<equiv> MakeFromEdgeTypes activeThreads tid_of order pg"
    and "present \<equiv> GetTypeOfEdge pg ` {0 ..< num_edges (topology pg)}"
  shows "num_unique_types m = card present
       \<and> index_to_type_map m = sorted_list_of_set present
       \<and> dom (type_to_index_map m) = present
       \<and> (\<forall>i < card present. \<exists>t \<in> present. GetType m i = Inr t \<and> GetIndex m t = Inr i)
       \<and> (\<forall>t \<in> present. \<exists>i < card present. GetIndex m t = Inr i \<and> GetType m i = Inr t)
       \<and> m = MakeFromEdgeTypes 1 (\<lambda>e. 0) (all_edges (topology pg)) pg"
proof -
  define sl where "sl = sorted_list_of_set present"
  have fin: "finite present" by (simp add: present_def)
  have set_order: "set order = {0 ..< num_edges (topology pg)}"
    using mset_eq_setD [OF assms(1)] by (simp add: all_edges_def)
  have sl_eq: "sl = sorted_list_of_set (GetTypeOfEdge pg ` set order)"
    by (simp add: sl_def present_def set_order)
  have set_sl: "set sl = present" using fin by (simp add: sl_def)
  have len_sl: "length sl = card present" by (simp add: sl_def)
  have d_sl: "distinct sl" by (simp add: sl_def)
  note char = MakeFromEdgeTypes_char [OF assms(2), where pg = pg, folded m_def sl_eq]
  have i2t: "index_to_type_map m = sl" by (rule char(1))
  have t2i: "type_to_index_map m (sl ! i) = Some i" if "i < length sl" for i
    using char(2) that by simp
  have t2i_None: "type_to_index_map m k = None" if "k \<notin> set sl" for k
    using char(3) that by simp
  have c1: "num_unique_types m = card present"
    by (simp add: num_unique_types_def i2t len_sl)
  have c3: "dom (type_to_index_map m) = present"
  proof (rule set_eqI)
    fix k
    show "k \<in> dom (type_to_index_map m) \<longleftrightarrow> k \<in> present"
    proof (cases "k \<in> set sl")
      case True
      then obtain i where "i < length sl" "sl ! i = k" by (auto simp: in_set_conv_nth)
      then show ?thesis using t2i [of i] True set_sl by auto
    next
      case False
      then show ?thesis using t2i_None [of k] set_sl by auto
    qed
  qed
  have c4: "\<forall>i < card present. \<exists>t \<in> present. GetType m i = Inr t \<and> GetIndex m t = Inr i"
  proof (intro allI impI)
    fix i assume "i < card present"
    then have i: "i < length sl" by (simp add: len_sl)
    then have "sl ! i \<in> present" using set_sl nth_mem by metis
    moreover have "GetType m i = Inr (sl ! i)" using i by (simp add: GetType_def at_def i2t)
    moreover have "GetIndex m (sl ! i) = Inr i" using t2i [OF i] by (simp add: GetIndex_def)
    ultimately show "\<exists>t \<in> present. GetType m i = Inr t \<and> GetIndex m t = Inr i" by blast
  qed
  have c5: "\<forall>t \<in> present. \<exists>i < card present. GetIndex m t = Inr i \<and> GetType m i = Inr t"
  proof
    fix t assume "t \<in> present"
    then obtain i where i: "i < length sl" "sl ! i = t"
      using set_sl by (auto simp: in_set_conv_nth)
    have "GetType m i = Inr t" using i by (simp add: GetType_def at_def i2t)
    moreover have "GetIndex m t = Inr i" using t2i [OF i(1)] i(2) by (simp add: GetIndex_def)
    ultimately show "\<exists>i < card present. GetIndex m t = Inr i \<and> GetType m i = Inr t"
      using i(1) len_sl by auto
  qed
  have c6: "m = MakeFromEdgeTypes 1 (\<lambda>e. 0) (all_edges (topology pg)) pg"
  proof -
    define m1 where "m1 = MakeFromEdgeTypes 1 (\<lambda>e. 0) (all_edges (topology pg)) pg"
    have sl_eq1: "sl = sorted_list_of_set (GetTypeOfEdge pg ` set (all_edges (topology pg)))"
      by (simp add: sl_def present_def all_edges_def)
    have one: "\<forall>e \<in> set (all_edges (topology pg)). (\<lambda>e. 0::nat) e < 1" by simp
    note char1 = MakeFromEdgeTypes_char [OF one, where pg = pg, folded m1_def sl_eq1]
    have "type_to_index_map m k = type_to_index_map m1 k" for k
    proof (cases "k \<in> set sl")
      case True
      then obtain i where "i < length sl" "sl ! i = k" by (auto simp: in_set_conv_nth)
      then show ?thesis using char(2) char1(2) by auto
    next
      case False
      then show ?thesis using char(3) char1(3) by auto
    qed
    then have "type_to_index_map m = type_to_index_map m1" by (rule ext)
    moreover have "index_to_type_map m = index_to_type_map m1" using char(1) char1(1) by simp
    moreover have "map_is_valid m = map_is_valid m1" using char(4) char1(4) by simp
    ultimately have "m = m1" by simp
    then show ?thesis by (simp add: m1_def)
  qed
  show ?thesis using c1 i2t c3 c4 c5 c6 unfolding sl_def by blast
qed

theorem MakeFromEdgeTypes_condensed_witness:
  "mset [3, 1, 0, 2] = mset (all_edges (topology four_edges_pg))
   \<and> list_all (\<lambda>e. e mod 2 < (2 :: nat)) [3, 1, 0, 2]
   \<and> index_to_type_map (MakeFromEdgeTypes 2 (\<lambda>e. e mod 2) [3, 1, 0, 2] four_edges_pg) = [3, 7]
   \<and> index_to_type_map (MakeFromEdgeTypes 2 (\<lambda>e. e mod 2) [3, 1, 0, 2] four_edges_pg)
       = sorted_list_of_set (GetTypeOfEdge four_edges_pg ` {0 ..< num_edges (topology four_edges_pg)})
   \<and> MakeFromEdgeTypes 2 (\<lambda>e. e mod 2) [3, 1, 0, 2] four_edges_pg
       = MakeFromEdgeTypes 1 (\<lambda>e. 0) (all_edges (topology four_edges_pg)) four_edges_pg"
proof -
  have h1: "mset [3, 1, 0, 2] = mset (all_edges (topology four_edges_pg))"
    by (simp add: all_edges_def num_edges_def four_edges_pg_def upt_rec eval_nat_numeral
        add_mset_commute)
  have h2: "\<forall>e \<in> set [3, 1, 0, 2 :: nat]. e mod 2 < (2 :: nat)"
    by simp
  have v: "index_to_type_map (MakeFromEdgeTypes 2 (\<lambda>e. e mod 2) [3, 1, 0, 2] four_edges_pg) = [3, 7]"
    by (simp add: MakeFromEdgeTypes_def assign_indices_def merge_edge_types_def
        collect_edge_types_def four_edges_pg_def upt_rec)
  have h2': "list_all (\<lambda>e. e mod 2 < (2 :: nat)) [3, 1, 0, 2]"
    by simp
  show ?thesis
    using h1 h2' v MakeFromEdgeTypes_condensed [OF h1 h2] by blast
qed

end
